theory Spec2Isabelle
  imports Main
begin

section \<open>The extended configuration tool (tools/scons/configureex.py)\<close>

text \<open>
  A shallow embedding of the augmentation resolver of \<^verbatim>\<open>configureex.py\<close>:
  the classes \<^verbatim>\<open>ConfExSpecification\<close>, \<^verbatim>\<open>ConfExEnvironmentAugment\<close>,
  \<^verbatim>\<open>ConfExEnvironment\<close> and \<^verbatim>\<open>ConfExCache\<close>.

  Python objects that are compared by identity (check functions, specification objects,
  augment objects) are represented by natural numbers: a check function and a
  specification by an identifier, an augment object by its address in a store.
  Python exceptions are values of type \<open>exn\<close>; a function that may raise returns
  \<open>exn + 'a\<close>, with \<open>Inl\<close> for the exception that leaves the function. An exception
  that leaves the validation step (\<^verbatim>\<open>_apply_env\<close>, \<^verbatim>\<open>_validate_augments\<close>) is paired
  with the session as the exception leaves it.
  A leading underscore of a Python name is dropped (\<^verbatim>\<open>_apply_env\<close> is \<open>apply_env\<close>).
\<close>

subsection \<open>Python values and exceptions\<close>

text \<open>
  The values a check may return. \<open>PyObj\<close> stands for any object with the default
  (identity) comparison, which therefore never compares equal to \<^verbatim>\<open>False\<close>.
\<close>

datatype pyval = PyNone | PyBool bool | PyInt int | PyStr string | PyObj nat

text \<open>
  \<open>CheckException\<close> is any exception raised by a check, with its message.
  \<open>ConfExError\<close> is the exception class of that name, with its error and its context.
\<close>

datatype exn = ValueError | KeyError | IndexError | TypeError | CheckException string
  | ConfExError string "string option"

text \<open>\<^verbatim>\<open>result == False\<close>: \<^verbatim>\<open>bool\<close> is a subclass of \<^verbatim>\<open>int\<close>, so \<^verbatim>\<open>0 == False\<close> holds.\<close>

fun py_eq_False :: "pyval \<Rightarrow> bool" where
  "py_eq_False (PyBool b) = (\<not> b)"
| "py_eq_False (PyInt i) = (i = 0)"
| "py_eq_False PyNone = False"
| "py_eq_False (PyStr s) = False"
| "py_eq_False (PyObj n) = False"

text \<open>\<^verbatim>\<open>(type(result) is str) and (result != "")\<close>\<close>

fun is_nonempty_str :: "pyval \<Rightarrow> bool" where
  "is_nonempty_str (PyStr s) = (s \<noteq> [])"
| "is_nonempty_str v = False"

text \<open>The test of \<^verbatim>\<open>_apply_env\<close> that appends a check to \<^verbatim>\<open>failed_checks\<close>.\<close>

definition check_failed :: "pyval \<Rightarrow> bool" where
  "check_failed result = (py_eq_False result \<or> is_nonempty_str result)"

text \<open>Python truthiness of a value that is \<^verbatim>\<open>None\<close> or a string.\<close>

fun truthy :: "string option \<Rightarrow> bool" where
  "truthy None = False"
| "truthy (Some s) = (s \<noteq> [])"

text \<open>\<^verbatim>\<open>list.index\<close>; \<open>None\<close> stands for the \<^verbatim>\<open>ValueError\<close> of a missing element.\<close>

fun index_of :: "'a list \<Rightarrow> 'a \<Rightarrow> nat option" where
  "index_of [] x = None"
| "index_of (y # ys) x = (if y = x then Some 0 else map_option Suc (index_of ys x))"

subsection \<open>Data model\<close>

text \<open>
  \<^verbatim>\<open>ConfExSpecification\<close>. \<open>sid\<close> is the identity of the specification object;
  \<open>Dependencies\<close> holds the identities of the specifications depended on, which is all
  the resolver ever reads of them (\<^verbatim>\<open>augment.Specification in ...Dependencies\<close>).
\<close>

record spec =
  sid :: nat
  Name :: string
  Components :: "string list option"
  Checks :: "nat list option"
  Dependencies :: "nat list option"

text \<open>\<^verbatim>\<open>ConfExEnvironmentAugment\<close>\<close>

record augment =
  Specification :: spec
  Tool :: "string option"
  Component :: "string option"
  Valid :: bool

text \<open>
  An SCons construction environment: the list under the key \<^verbatim>\<open>TOOLS\<close> and the
  other construction variables.
\<close>

record env =
  TOOLS :: "string list"
  vars :: "string \<rightharpoonup> string"

text \<open>\<^verbatim>\<open>key in env.Dictionary()\<close>\<close>

definition has_key :: "env \<Rightarrow> string \<Rightarrow> bool" where
  "has_key e k = (k = ''TOOLS'' \<or> vars e k \<noteq> None)"

text \<open>
  \<^verbatim>\<open>ConfExCache\<close>: the ordered tool names and, for each detected tool, the dictionary
  \<^verbatim>\<open>Components[tool]\<close> from component to its flags.
\<close>

record cache =
  Tools :: "string list"
  ToolComponents :: "string \<rightharpoonup> (string \<rightharpoonup> string list)"

text \<open>
  What the resolver calls but does not implement: applying a tool to an environment
  (\<^verbatim>\<open>env.Tool\<close>), calling a check (which returns a value or raises, and may change the
  environment of the active \<^verbatim>\<open>Configure\<close> context), the trial application of a tool
  by \<^verbatim>\<open>Detect\<close> (the \<^verbatim>\<open>TOOLS\<close> of the clone, the keys modified by the first and by
  the second application), and the class attributes \<^verbatim>\<open>ConfExBase._ENVPre\<close> and
  \<^verbatim>\<open>ConfExBase._ENVPost\<close>.
\<close>

record prims =
  tool_apply :: "string \<Rightarrow> env \<Rightarrow> env"
  check_fn :: "nat \<Rightarrow> env \<Rightarrow> (exn + pyval) \<times> env"
  trial :: "env \<Rightarrow> string \<Rightarrow> string list \<times> string list \<times> string list"
  ENVPre :: "(string \<times> string) list option"
  ENVPost :: "(string \<times> string) list option"

text \<open>
  \<^verbatim>\<open>ConfExEnvironment\<close>. \<open>heap\<close> is the store of augment objects (an address is an
  index into it, allocation appends) and \<open>augments\<close> the committed list
  \<^verbatim>\<open>self._augments\<close> of addresses. The last three fields are observation counters
  that are not in the source and that no branch reads: the checks that were called
  and returned, in order, each with the value it returned; the number of component
  membership tests made by the two candidate scans; the number of calls of
  \<^verbatim>\<open>GetTool\<close>.
\<close>

record session =
  base :: env
  current :: env
  augments :: "nat list"
  heap :: "augment list"
  cache :: cache
  applied_tools :: "string list"
  applied_checks :: "nat list"
  pre_applied :: bool
  executed :: "(nat \<times> pyval) list"
  probes :: nat
  lookups :: nat

subsection \<open>Applying tools and running checks: \<^verbatim>\<open>_apply_env\<close>\<close>

text \<open>\<^verbatim>\<open>for key in d: self._current[key] = d[key]\<close>, for \<^verbatim>\<open>d\<close> that may be \<^verbatim>\<open>None\<close>.\<close>

fun set_vars :: "(string \<times> string) list \<Rightarrow> env \<Rightarrow> env" where
  "set_vars [] e = e"
| "set_vars ((k, v) # kvs) e = set_vars kvs (e\<lparr>vars := (vars e)(k \<mapsto> v)\<rparr>)"

definition set_vars_opt :: "(string \<times> string) list option \<Rightarrow> env \<Rightarrow> env" where
  "set_vars_opt d e = (case d of None \<Rightarrow> e | Some kvs \<Rightarrow> set_vars kvs e)"

text \<open>\<^verbatim>\<open>__reset_environment\<close>\<close>

definition reset_environment :: "prims \<Rightarrow> session \<Rightarrow> session" where
  "reset_environment P s =
     s\<lparr>current := set_vars_opt (ENVPre P) (base s),
       applied_tools := [],
       applied_checks := [],
       pre_applied := True\<rparr>"

text \<open>
  The loop of \<^verbatim>\<open>_apply_env\<close> that finds where appending starts. The arguments are the
  applied tools, \<^verbatim>\<open>len(tools)\<close>, the tools from index \<open>i\<close> on, \<open>i\<close>, \<^verbatim>\<open>expected\<close> and
  \<^verbatim>\<open>append\<close>; the result is \<^verbatim>\<open>(reset, append)\<close>.
\<close>

fun find_start :: "string list \<Rightarrow> nat \<Rightarrow> string list \<Rightarrow> nat \<Rightarrow> int \<Rightarrow> nat \<Rightarrow> bool \<times> nat" where
  "find_start applied n [] i expected append_idx = (False, append_idx)"
| "find_start applied n (t # ts) i expected append_idx =
     (case index_of applied t of
        Some actual \<Rightarrow>
          (let expected' =
                 (if i = 0 \<and> (n > 1 \<or> int actual = int (length applied) - 1)
                  then int actual else expected)
           in if int actual = expected'
              then find_start applied n ts (Suc i) (expected' + 1) append_idx
              else (True, append_idx))
      | None \<Rightarrow>
          (if expected = -1 then find_start applied n ts (Suc i) expected 0
           else if expected = int (length applied)
           then find_start applied n ts (Suc i) expected (if append_idx = n then i else append_idx)
           else (True, append_idx)))"

text \<open>The decision of \<^verbatim>\<open>_apply_env\<close>: \<^verbatim>\<open>(reset, append)\<close> before \<^verbatim>\<open>if reset:\<close>.\<close>

definition apply_plan :: "string list \<Rightarrow> string list \<Rightarrow> bool \<Rightarrow> bool \<times> nat" where
  "apply_plan applied tools exact =
     (if exact \<and> (\<exists>tool \<in> set applied. tool \<notin> set tools) then (True, length tools)
      else find_start applied (length tools) tools 0 (-1) (length tools))"

text \<open>
  A block of tools sits in the applied list at the positions \<open>k\<close>, \<open>k + 1\<close>, ... when
  \<^verbatim>\<open>list.index\<close> finds each of them there.
\<close>

definition run_at :: "string list \<Rightarrow> string list \<Rightarrow> nat \<Rightarrow> bool" where
  "run_at A pre k = (\<forall>j < length pre. index_of A (pre ! j) = Some (k + j))"

text \<open>
  The loop \<^verbatim>\<open># Apply tools\<close>; the number is \<^verbatim>\<open>expected_len\<close>.
\<close>

fun apply_tools :: "prims \<Rightarrow> string list \<Rightarrow> nat \<Rightarrow> session \<Rightarrow> session" where
  "apply_tools P [] expected_len s = s"
| "apply_tools P (t # ts) expected_len s =
     (let s1 = s\<lparr>applied_tools := applied_tools s @ [t]\<rparr>;
          e1 = tool_apply P t (current s1);
          e2 = (if length (TOOLS e1) \<noteq> expected_len
                then e1\<lparr>TOOLS := take expected_len (TOOLS e1)\<rparr> else e1)
      in apply_tools P ts (expected_len + 1) (s1\<lparr>current := e2\<rparr>))"

text \<open>
  The loop over one of the two check lists. A check already in \<^verbatim>\<open>__applied_checks\<close>
  is skipped when the list is not the required one; a check that raises ends the loop
  with its exception, as nothing in \<^verbatim>\<open>_apply_env\<close> catches it. The check is
  remembered by then, and the environment is as the check left it.
\<close>

fun run_checks ::
  "prims \<Rightarrow> bool \<Rightarrow> nat list \<Rightarrow> session \<Rightarrow> nat list
   \<Rightarrow> (exn \<times> session) + (session \<times> nat list)" where
  "run_checks P required [] s failed = Inr (s, failed)"
| "run_checks P required (c # cs) s failed =
     (let known = (c \<in> set (applied_checks s));
          s1 = (if known then s else s\<lparr>applied_checks := applied_checks s @ [c]\<rparr>)
      in if known \<and> \<not> required then run_checks P required cs s1 failed
         else (case check_fn P c (current s1) of
                 (Inl e, env') \<Rightarrow> Inl (e, s1\<lparr>current := env'\<rparr>)
               | (Inr result, env') \<Rightarrow>
                   run_checks P required cs
                     (s1\<lparr>current := env', executed := executed s1 @ [(c, result)]\<rparr>)
                     (if check_failed result then failed @ [c] else failed)))"

text \<open>\<^verbatim>\<open>if checks:\<close> is false for \<^verbatim>\<open>None\<close> and for an empty sequence.\<close>

definition checks_of :: "nat list option \<Rightarrow> nat list" where
  "checks_of cs = (case cs of None \<Rightarrow> [] | Some xs \<Rightarrow> xs)"

text \<open>
  The part of \<^verbatim>\<open>_apply_env\<close> from \<^verbatim>\<open># Create a Configure() context and run checks\<close>
  on: the required checks, then the optional ones. \<^verbatim>\<open>Configure\<close> and \<^verbatim>\<open>Finish\<close>
  hand the current environment to the checks and back.
\<close>

definition checks_phase ::
  "prims \<Rightarrow> nat list option \<Rightarrow> nat list option \<Rightarrow> session
   \<Rightarrow> (exn \<times> session) + (nat list \<times> session)" where
  "checks_phase P req_checks opt_checks s =
     (case run_checks P True (checks_of req_checks) s [] of
        Inl e \<Rightarrow> Inl e
      | Inr (s1, failed) \<Rightarrow>
          (case run_checks P False (checks_of opt_checks) s1 failed of
             Inl e \<Rightarrow> Inl e
           | Inr (s2, failed_checks) \<Rightarrow> Inr (failed_checks, s2)))"

text \<open>The part of \<^verbatim>\<open>_apply_env\<close> up to and including the loop \<^verbatim>\<open># Apply tools\<close>.\<close>

definition tools_phase :: "prims \<Rightarrow> string list \<Rightarrow> bool \<Rightarrow> session \<Rightarrow> session" where
  "tools_phase P tools exact s =
     (let (reset, append_idx) = apply_plan (applied_tools s) tools exact;
          s1 = (if reset then reset_environment P s else s);
          start = (if reset then 0 else append_idx)
      in apply_tools P (drop start tools) (length (TOOLS (current s1)) + 1) s1)"

text \<open>\<^verbatim>\<open>_apply_env(tools, exact, req_checks, opt_checks)\<close>, returning \<^verbatim>\<open>failed_checks\<close>.\<close>

definition apply_env ::
  "prims \<Rightarrow> session \<Rightarrow> string list \<Rightarrow> bool \<Rightarrow> nat list option \<Rightarrow> nat list option
   \<Rightarrow> (exn \<times> session) + (nat list \<times> session)" where
  "apply_env P s tools exact req_checks opt_checks =
     checks_phase P req_checks opt_checks (tools_phase P tools exact s)"

subsection \<open>The tool cache: \<^verbatim>\<open>Detect\<close>, \<^verbatim>\<open>AddTool\<close>, \<^verbatim>\<open>GetTool\<close>\<close>

text \<open>
  \<^verbatim>\<open>ConfExEnvironment.Detect\<close>: the tools added by the trial application and the
  components, flagged \<^verbatim>\<open>no_overlap\<close> unless the second application modifies them too.
\<close>

definition Detect :: "prims \<Rightarrow> env \<Rightarrow> string \<Rightarrow> string list \<times> (string \<rightharpoonup> string list)" where
  "Detect P b tool =
     (case trial P b tool of
        (tools, mods1, mods2) \<Rightarrow>
          (drop (length (TOOLS b)) tools,
           (\<lambda>k. if k \<in> set mods2 then Some []
                else if k \<in> set mods1 then Some [''no_overlap''] else None)))"

text \<open>\<^verbatim>\<open>list.insert\<close>: a negative index counts from the end, and the index is clamped.\<close>

definition py_insert :: "int \<Rightarrow> 'a \<Rightarrow> 'a list \<Rightarrow> 'a list" where
  "py_insert i x xs =
     (let n = int (length xs);
          j = (if i < 0 then max 0 (i + n) else min i n)
      in take (nat j) xs @ x # drop (nat j) xs)"

text \<open>\<^verbatim>\<open>del xs[i]\<close> for an index in range.\<close>

definition delete_at :: "nat \<Rightarrow> 'a list \<Rightarrow> 'a list" where
  "delete_at i xs = take i xs @ drop (Suc i) xs"

text \<open>
  The \<^verbatim>\<open>try\<close> block of \<^verbatim>\<open>AddTool\<close>: a tool found after \<^verbatim>\<open>tool_idx\<close> is moved to
  \<^verbatim>\<open>tool_idx\<close>, a tool not found is inserted there.
\<close>

definition reposition :: "string list \<Rightarrow> string \<Rightarrow> int \<Rightarrow> string list" where
  "reposition ts tool tool_idx =
     (case index_of ts tool of
        Some orig_idx \<Rightarrow>
          if int orig_idx > tool_idx then py_insert tool_idx tool (delete_at orig_idx ts)
          else ts
      | None \<Rightarrow> py_insert tool_idx tool ts)"

text \<open>
  The two nested loops of \<^verbatim>\<open>AddTool\<close>, with \<^verbatim>\<open>tools_stack\<close>, \<^verbatim>\<open>tools\<close>,
  \<^verbatim>\<open>tool_idx\<close> and \<^verbatim>\<open>offset\<close> as arguments. Detection may return ever new tools, so
  the loop need not end: \<open>None\<close> is the run that does not return.
\<close>

partial_function (option) AddTool_loop ::
  "prims \<Rightarrow> env \<Rightarrow> cache \<Rightarrow> string list list \<Rightarrow> string list \<Rightarrow> int \<Rightarrow> int \<Rightarrow> cache option" where
  "AddTool_loop P b c tools_stack tools tool_idx offset =
     (case tools of
        [] \<Rightarrow>
          (case tools_stack of
             [] \<Rightarrow> Some c
           | ts # stack' \<Rightarrow> AddTool_loop P b c stack' ts (tool_idx - offset) offset)
      | tool # tools' \<Rightarrow>
          (let c1 = c\<lparr>Tools := reposition (Tools c) tool tool_idx\<rparr>
           in case ToolComponents c1 tool of
                Some m \<Rightarrow> AddTool_loop P b c1 tools_stack tools' tool_idx offset
              | None \<Rightarrow>
                  (case Detect P b tool of
                     (toolchain, components) \<Rightarrow>
                       (let c2 = c1\<lparr>ToolComponents := (ToolComponents c1)(tool \<mapsto> components)\<rparr>
                        in if length toolchain > 1
                           then AddTool_loop P b c2 (tools' # tools_stack) toolchain tool_idx
                                  (int (length toolchain))
                           else AddTool_loop P b c2 tools_stack tools' tool_idx offset))))"

declare AddTool_loop.simps [code]

definition AddTool :: "prims \<Rightarrow> env \<Rightarrow> cache \<Rightarrow> string \<Rightarrow> cache option" where
  "AddTool P b c tool =
     (case index_of (Tools c) tool of
        Some tool_idx \<Rightarrow> AddTool_loop P b c [] [tool] (int tool_idx) 0
      | None \<Rightarrow>
          AddTool_loop P b (c\<lparr>Tools := Tools c @ [tool]\<rparr>) [] [tool] (int (length (Tools c))) 0)"

text \<open>
  The loop over the candidate components, the same in \<^verbatim>\<open>__set_component_local\<close>
  (where a hit is a key of the base environment) and in \<^verbatim>\<open>GetTool\<close> (where a hit is
  a component of the tool): \<^verbatim>\<open>offset\<close> hits are skipped, the next one is returned. The
  result is the component found, the offset left, and the counter \<open>n\<close> increased by the
  number of membership tests.
\<close>

function scan :: "(string \<Rightarrow> bool) \<Rightarrow> string list \<Rightarrow> bool \<Rightarrow> int \<Rightarrow> int \<Rightarrow> nat \<Rightarrow> string option \<times> int \<times> nat" where
  "scan hit components forward component_idx offset n =
     (if 0 \<le> component_idx \<and> component_idx < int (length components)
      then (let component = components ! nat component_idx
            in if hit component \<and> offset = 0 then (Some component, offset, Suc n)
               else scan hit components forward
                      (if forward then component_idx + 1 else component_idx - 1)
                      (if hit component
                       then (if offset < 0 then offset + 1 else offset - 1) else offset)
                      (Suc n))
      else (None, offset, n))"
  by pat_completeness auto
termination
  by (relation "measure (\<lambda>(hit, components, forward, component_idx, offset, n).
         if forward then nat (int (length components) - component_idx)
         else nat (component_idx + 1))") auto

text \<open>
  The starting index from a reference that may be \<^verbatim>\<open>None\<close>:
  \<^verbatim>\<open>xs.index(ref) if ref else 0\<close>, \<open>None\<close> for the \<^verbatim>\<open>ValueError\<close>.
\<close>

definition ref_index :: "string list \<Rightarrow> string option \<Rightarrow> nat option" where
  "ref_index xs r = (case r of None \<Rightarrow> Some 0 | Some x \<Rightarrow> if x = [] then Some 0 else index_of xs x)"

text \<open>
  The loop \<^verbatim>\<open>while not tool_set\<close> of \<^verbatim>\<open>GetTool\<close>. A tool without an entry in
  \<^verbatim>\<open>Components\<close> is added to the cache and the iteration repeated.
\<close>

partial_function (option) GetTool_loop ::
  "prims \<Rightarrow> env \<Rightarrow> string list \<Rightarrow> bool \<Rightarrow> cache \<Rightarrow> int \<Rightarrow> int \<Rightarrow> int \<Rightarrow> nat
   \<Rightarrow> ((string \<times> string) option \<times> int \<times> nat \<times> cache) option" where
  "GetTool_loop P b components forward c tool_idx component_idx offset n =
     (if tool_idx < 0 \<or> tool_idx \<ge> int (length (Tools c)) then Some (None, offset, n, c)
      else (let tool = Tools c ! nat tool_idx
            in case ToolComponents c tool of
                 None \<Rightarrow>
                   (case AddTool P b c tool of
                      None \<Rightarrow> None
                    | Some c' \<Rightarrow>
                        GetTool_loop P b components forward c' tool_idx component_idx offset n)
               | Some m \<Rightarrow>
                   (case scan (\<lambda>component. m component \<noteq> None) components forward
                           component_idx offset n of
                      (Some component, offset', n') \<Rightarrow> Some (Some (component, tool), offset', n', c)
                    | (None, offset', n') \<Rightarrow>
                        GetTool_loop P b components forward c
                          (if forward then tool_idx + 1 else tool_idx - 1)
                          (if forward then 0 else int (length components) - 1)
                          offset' n')))"

declare GetTool_loop.simps [code]

text \<open>
  \<^verbatim>\<open>GetTool(components, ref_component, ref_tool, offset)\<close>. The result is the pair
  \<^verbatim>\<open>(component, tool)\<close> or \<^verbatim>\<open>None\<close>, the offset left in the shared one-element list,
  the number of membership tests, and the cache.
\<close>

definition GetTool ::
  "prims \<Rightarrow> env \<Rightarrow> cache \<Rightarrow> string list \<Rightarrow> string option \<Rightarrow> string option \<Rightarrow> int
   \<Rightarrow> (exn + ((string \<times> string) option \<times> int \<times> nat \<times> cache)) option" where
  "GetTool P b c components ref_component ref_tool offset =
     (if Tools c = [] then Some (Inr (None, offset, 0, c))
      else (case ref_index components ref_component of
              None \<Rightarrow> Some (Inl ValueError)
            | Some component_idx \<Rightarrow>
                (case ref_index (Tools c) ref_tool of
                   None \<Rightarrow> Some (Inl ValueError)
                 | Some tool_idx \<Rightarrow>
                     map_option Inr
                       (GetTool_loop P b components (offset \<ge> 0) c
                          (int tool_idx) (int component_idx) offset 0))))"

subsection \<open>Component selection: \<^verbatim>\<open>_set_component\<close>\<close>

text \<open>\<^verbatim>\<open>__set_component_local(components, ref_component, offset)\<close>\<close>

definition set_component_local ::
  "env \<Rightarrow> string list \<Rightarrow> string option \<Rightarrow> int \<Rightarrow> exn + (string option \<times> int \<times> nat)" where
  "set_component_local b components ref_component offset =
     (case ref_index components ref_component of
        None \<Rightarrow> Inl ValueError
      | Some component_idx \<Rightarrow>
          Inr (scan (has_key b) components (offset \<ge> 0) (int component_idx) offset 0))"

datatype source = LOCAL | TOOL

text \<open>The assignments of \<^verbatim>\<open>_set_component\<close> under \<^verbatim>\<open>if component_set:\<close>.\<close>

definition assign :: "session \<Rightarrow> nat \<Rightarrow> string option \<Rightarrow> string option \<Rightarrow> session" where
  "assign s a component tool =
     s\<lparr>heap := (heap s)[a := (heap s ! a)\<lparr>Tool := tool, Component := component, Valid := False\<rparr>]\<rparr>"

text \<open>
  The loop \<^verbatim>\<open>for src in sources[src_start:]\<close>, with \<^verbatim>\<open>ref_component\<close> and the shared
  offset as arguments.
\<close>

fun try_sources ::
  "prims \<Rightarrow> session \<Rightarrow> nat \<Rightarrow> string list \<Rightarrow> source list \<Rightarrow> string option \<Rightarrow> int
   \<Rightarrow> (exn + (bool \<times> session)) option" where
  "try_sources P s a components [] ref_component offset = Some (Inr (False, s))"
| "try_sources P s a components (LOCAL # srcs) ref_component offset =
     (case set_component_local (base s) components ref_component offset of
        Inl e \<Rightarrow> Some (Inl e)
      | Inr (component, offset', n) \<Rightarrow>
          (let s1 = s\<lparr>probes := probes s + n\<rparr>
           in if truthy component then Some (Inr (True, assign s1 a component None))
              else (case components of
                      [] \<Rightarrow> Some (Inl IndexError)
                    | c0 # cs \<Rightarrow> try_sources P s1 a components srcs (Some c0) offset')))"
| "try_sources P s a components (TOOL # srcs) ref_component offset =
     (case GetTool P (base s) (cache s) components ref_component (Tool (heap s ! a)) offset of
        None \<Rightarrow> None
      | Some (Inl e) \<Rightarrow> Some (Inl e)
      | Some (Inr (component_tool, offset', n, c')) \<Rightarrow>
          (let s1 = s\<lparr>cache := c', probes := probes s + n, lookups := Suc (lookups s)\<rparr>
           in case component_tool of
                Some (component, tool) \<Rightarrow>
                  Some (Inr (True, assign s1 a (Some component) (Some tool)))
              | None \<Rightarrow>
                  (case components of
                     [] \<Rightarrow> Some (Inl IndexError)
                   | c0 # cs \<Rightarrow>
                       try_sources P s1 a components srcs (Some (last components)) offset')))"

text \<open>
  \<^verbatim>\<open>_set_component(augment, offset)\<close> for the augment at address \<open>a\<close>. An augment
  without candidate components makes the first scan raise \<^verbatim>\<open>TypeError\<close>
  (\<^verbatim>\<open>len(None)\<close>).
\<close>

definition set_component :: "prims \<Rightarrow> session \<Rightarrow> nat \<Rightarrow> int \<Rightarrow> (exn + (bool \<times> session)) option" where
  "set_component P s a offset =
     (let augment = heap s ! a
      in case Components (Specification augment) of
           None \<Rightarrow> Some (Inl TypeError)
         | Some components \<Rightarrow>
             (let sources = (if offset < 0 then [TOOL, LOCAL] else [LOCAL, TOOL]);
                  src_start = (if truthy (Tool augment) then TOOL else LOCAL)
              in try_sources P s a components (dropWhile (\<lambda>src. src \<noteq> src_start) sources)
                   (Component augment) offset))"

subsection \<open>Ordering: \<^verbatim>\<open>_order_augments\<close>\<close>

text \<open>
  \<^verbatim>\<open>tool and expr(Components[tool])\<close>: \<open>Inr None\<close> when the tool is \<^verbatim>\<open>None\<close> or
  empty (the conjunction is decided without the look-up), \<^verbatim>\<open>KeyError\<close> when the tool
  has no entry in the cache.
\<close>

definition components_of :: "cache \<Rightarrow> string option \<Rightarrow> exn + (string \<rightharpoonup> string list) option" where
  "components_of c tool =
     (case tool of
        None \<Rightarrow> Inr None
      | Some t \<Rightarrow>
          if t = [] then Inr None
          else (case ToolComponents c t of None \<Rightarrow> Inl KeyError | Some m \<Rightarrow> Inr (Some m)))"

text \<open>\<^verbatim>\<open>component in d\<close> for a component that may be \<^verbatim>\<open>None\<close>.\<close>

definition in_dict :: "(string \<rightharpoonup> string list) \<Rightarrow> string option \<Rightarrow> bool" where
  "in_dict m component = (case component of None \<Rightarrow> False | Some k \<Rightarrow> m k \<noteq> None)"

text \<open>
  The first test of the outer loop: whether \<^verbatim>\<open>overlap_component\<close> starts as the
  augment itself.
\<close>

definition initial_overlap :: "cache \<Rightarrow> augment \<Rightarrow> exn + bool" where
  "initial_overlap c augment =
     (case components_of c (Tool augment) of
        Inl e \<Rightarrow> Inl e
      | Inr None \<Rightarrow> Inr False
      | Inr (Some m) \<Rightarrow>
          (case Component augment of
             None \<Rightarrow> Inl KeyError
           | Some k \<Rightarrow>
               (case m k of None \<Rightarrow> Inl KeyError | Some flags \<Rightarrow> Inr (''no_overlap'' \<in> set flags))))"

text \<open>
  The inner loop \<^verbatim>\<open>for i in range(len(ordered))\<close>, over the ordered augments from index
  \<open>i\<close> on. \<open>overlap\<close> says whether \<^verbatim>\<open>overlap_component\<close> is set. The result is the
  ordered augment the incompatibility is raised at, or \<^verbatim>\<open>active_idx\<close>.
\<close>

fun find_active ::
  "cache \<Rightarrow> augment list \<Rightarrow> augment \<Rightarrow> nat list \<Rightarrow> nat \<Rightarrow> nat \<Rightarrow> bool \<Rightarrow> bool \<Rightarrow> exn + (nat + nat)" where
  "find_active c h augment [] i active_idx overlap tool_present = Inr (Inr active_idx)"
| "find_active c h augment (x # xs) i active_idx overlap tool_present =
     (if truthy (Tool augment) \<and> Tool augment = Tool (h ! x)
      then find_active c h augment xs (Suc i)
             (if tool_present then active_idx else i) overlap True
      else (case components_of c (Tool augment) of
              Inl e \<Rightarrow> Inl e
            | Inr own \<Rightarrow>
                (let overlap' =
                       (case own of None \<Rightarrow> overlap
                        | Some m \<Rightarrow> if in_dict m (Component (h ! x)) then True else overlap)
                 in case components_of c (Tool (h ! x)) of
                      Inl e \<Rightarrow> Inl e
                    | Inr other \<Rightarrow>
                        if (case other of None \<Rightarrow> False | Some m \<Rightarrow> in_dict m (Component augment))
                        then (if overlap' \<or> tool_present then Inr (Inl x)
                              else find_active c h augment xs (Suc i) (Suc i) overlap' tool_present)
                        else find_active c h augment xs (Suc i) active_idx overlap' tool_present)))"

text \<open>\<^verbatim>\<open>ordered.insert(active_idx, augment)\<close> for an index within the list.\<close>

definition insert_at :: "nat \<Rightarrow> 'a \<Rightarrow> 'a list \<Rightarrow> 'a list" where
  "insert_at i x xs = take i xs @ x # drop i xs"

text \<open>
  The outer loop over the reversed list; the result is the incompatible pair or the
  ordered list.
\<close>

fun order_loop :: "cache \<Rightarrow> augment list \<Rightarrow> nat list \<Rightarrow> nat list \<Rightarrow> exn + ((nat \<times> nat) + nat list)" where
  "order_loop c h [] ordered = Inr (Inr ordered)"
| "order_loop c h (a # as) ordered =
     (case initial_overlap c (h ! a) of
        Inl e \<Rightarrow> Inl e
      | Inr overlap \<Rightarrow>
          (case find_active c h (h ! a) ordered 0 0 overlap False of
             Inl e \<Rightarrow> Inl e
           | Inr (Inl x) \<Rightarrow> Inr (Inl (a, x))
           | Inr (Inr active_idx) \<Rightarrow> order_loop c h as (insert_at active_idx a ordered)))"

text \<open>
  \<^verbatim>\<open>_order_augments(augments)\<close>: the incompatibility returned and the list
  \<^verbatim>\<open>augments\<close> as the call leaves it, which is the reversed list when the
  incompatibility was raised.
\<close>

definition order_augments :: "session \<Rightarrow> nat list \<Rightarrow> exn + ((nat \<times> nat) option \<times> nat list)" where
  "order_augments s augs =
     (case order_loop (cache s) (heap s) (rev augs) [] of
        Inl e \<Rightarrow> Inl e
      | Inr (Inl incompatibility) \<Rightarrow> Inr (Some incompatibility, rev augs)
      | Inr (Inr ordered) \<Rightarrow> Inr (None, ordered))"

subsection \<open>Validation: \<^verbatim>\<open>_validate_augments\<close>\<close>

text \<open>
  The inner loop \<^verbatim>\<open>for depends in augments\<close>: some augment that is not valid lists the
  specification among its dependencies.
\<close>

definition is_dependency :: "augment list \<Rightarrow> nat list \<Rightarrow> augment \<Rightarrow> bool" where
  "is_dependency h augs augment =
     (\<exists>d \<in> set augs. \<not> Valid (h ! d) \<and>
        (case Dependencies (Specification (h ! d)) of
           None \<Rightarrow> False
         | Some deps \<Rightarrow> sid (Specification augment) \<in> set deps))"

text \<open>
  The first loop of \<^verbatim>\<open>_validate_augments\<close>, with \<^verbatim>\<open>tools\<close>, \<^verbatim>\<open>checks\<close> and
  \<^verbatim>\<open>depends_checks\<close> as accumulators; \<open>augs\<close> is the whole list.
\<close>

fun collect ::
  "augment list \<Rightarrow> nat list \<Rightarrow> nat list \<Rightarrow> string list \<Rightarrow> nat list \<Rightarrow> nat list
   \<Rightarrow> string list \<times> nat list \<times> nat list" where
  "collect h augs [] tools checks depends_checks = (tools, checks, depends_checks)"
| "collect h augs (a # as) tools checks depends_checks =
     (let augment = h ! a;
          dependency_augment = (Valid augment \<and> is_dependency h augs augment)
      in if Valid augment \<and> \<not> dependency_augment
         then collect h augs as tools checks depends_checks
         else (let tools' = (case Tool augment of
                              None \<Rightarrow> tools
                            | Some t \<Rightarrow> if t = [] then tools else tools @ [t]);
                   cs = checks_of (Checks (Specification augment))
               in if dependency_augment
                  then collect h augs as tools' checks (depends_checks @ cs)
                  else collect h augs as tools' (checks @ cs) depends_checks))"

text \<open>
  The second loop: an augment is marked invalid when one of the failed checks is among
  its own checks, valid otherwise.
\<close>

fun mark :: "nat list \<Rightarrow> nat list \<Rightarrow> augment list \<Rightarrow> nat list \<Rightarrow> augment list \<times> nat list" where
  "mark failed_checks [] h invalid_augments = (h, invalid_augments)"
| "mark failed_checks (a # as) h invalid_augments =
     (let valid = (\<not> (\<exists>check \<in> set failed_checks.
                        check \<in> set (checks_of (Checks (Specification (h ! a))))))
      in mark failed_checks as (h[a := (h ! a)\<lparr>Valid := valid\<rparr>])
           (if valid then invalid_augments else invalid_augments @ [a]))"

text \<open>\<^verbatim>\<open>_validate_augments(augments)\<close>, returning \<^verbatim>\<open>invalid_augments\<close>.\<close>

definition validate_augments ::
  "prims \<Rightarrow> session \<Rightarrow> nat list \<Rightarrow> (exn \<times> session) + (nat list \<times> session)" where
  "validate_augments P s augs =
     (case collect (heap s) augs augs [] [] [] of
        (tools, checks, depends_checks) \<Rightarrow>
          (case apply_env P s tools False (Some checks) (Some depends_checks) of
             Inl e \<Rightarrow> Inl e
           | Inr (failed_checks, s1) \<Rightarrow>
               (case mark failed_checks augs (heap s1) [] of
                  (h, invalid_augments) \<Rightarrow> Inr (invalid_augments, s1\<lparr>heap := h\<rparr>))))"

subsection \<open>The search: \<^verbatim>\<open>AddAugment\<close>\<close>

text \<open>
  \<^verbatim>\<open>_clone_augments\<close>: every augment of the list is copied into a new object; the
  result is the list of the new addresses and the store.
\<close>

fun clone_augments :: "nat list \<Rightarrow> augment list \<Rightarrow> nat list \<Rightarrow> nat list \<times> augment list" where
  "clone_augments [] h cloned_augments = (cloned_augments, h)"
| "clone_augments (a # as) h cloned_augments =
     clone_augments as
       (h @ [\<lparr>Specification = Specification (h ! a), Tool = Tool (h ! a),
              Component = Component (h ! a), Valid = Valid (h ! a)\<rparr>])
       (cloned_augments @ [length h])"

text \<open>\<^verbatim>\<open>ConfExEnvironmentAugment(spec)\<close>\<close>

definition new_augment :: "spec \<Rightarrow> augment" where
  "new_augment sp = \<lparr>Specification = sp, Tool = None, Component = None, Valid = False\<rparr>"

text \<open>
  The body of the \<^verbatim>\<open>try\<close> in the delta loop; \<^verbatim>\<open>change_delta\<close>, a pair of parallel
  lists in the source, is a list of pairs of an augment and its offset.
\<close>

fun delta_add :: "(nat \<times> int) list \<Rightarrow> nat \<Rightarrow> int \<Rightarrow> (nat \<times> int) list" where
  "delta_add [] a offset = [(a, offset)]"
| "delta_add ((b, k) # rest) a offset =
     (if b = a then (if k + offset = 0 then rest else (b, k + offset) # rest)
      else (b, k) # delta_add rest a offset)"

text \<open>\<^verbatim>\<open>for change_offset in [(change, 1), (last_change, -1)]\<close>\<close>

definition change_delta :: "nat list \<Rightarrow> nat list \<Rightarrow> (nat \<times> int) list" where
  "change_delta change last_change =
     fold (\<lambda>a d. delta_add d a (-1)) last_change (fold (\<lambda>a d. delta_add d a 1) change [])"

text \<open>
  The loop \<^verbatim>\<open># Apply change delta\<close>: the result is the index \<open>i\<close> at which
  \<^verbatim>\<open>_set_component\<close> found no component, if any.
\<close>

fun apply_delta ::
  "prims \<Rightarrow> session \<Rightarrow> (nat \<times> int) list \<Rightarrow> nat \<Rightarrow> (exn + (nat option \<times> session)) option" where
  "apply_delta P s [] i = Some (Inr (None, s))"
| "apply_delta P s ((a, offset) # rest) i =
     (case set_component P s a offset of
        None \<Rightarrow> None
      | Some (Inl e) \<Rightarrow> Some (Inl e)
      | Some (Inr (component_set, s1)) \<Rightarrow>
          if component_set then apply_delta P s1 rest (Suc i) else Some (Inr (Some i, s1)))"

text \<open>
  \<^verbatim>\<open>for _ in range(abs(offset))\<close>: append the augment, or remove it
  (\<^verbatim>\<open>list.remove\<close> raises \<^verbatim>\<open>ValueError\<close> when it is absent).
\<close>

fun repeat_update :: "nat \<Rightarrow> int \<Rightarrow> nat \<Rightarrow> nat list \<Rightarrow> exn + nat list" where
  "repeat_update 0 offset a change = Inr change"
| "repeat_update (Suc k) offset a change =
     (if offset > 0 then repeat_update k offset a (change @ [a])
      else if a \<in> set change then repeat_update k offset a (remove1 a change)
      else Inl ValueError)"

text \<open>\<^verbatim>\<open># Update change to what was actually set\<close>, over the first \<open>i\<close> entries.\<close>

fun actual_change :: "(nat \<times> int) list \<Rightarrow> nat list \<Rightarrow> exn + nat list" where
  "actual_change [] change = Inr change"
| "actual_change ((a, offset) # rest) change =
     (case repeat_update (nat \<bar>offset\<bar>) offset a change of
        Inl e \<Rightarrow> Inl e
      | Inr change' \<Rightarrow> actual_change rest change')"

text \<open>
  The first half of an iteration of the \<^verbatim>\<open>while\<close> loop, up to
  \<^verbatim>\<open># Order augments\<close>. The result says whether the iteration goes on to ordering and
  validation (it does not after \<^verbatim>\<open>continue\<close>), and gives \<^verbatim>\<open>change\<close>, \<^verbatim>\<open>changes\<close>
  and the session. \<^verbatim>\<open>changes.pop()\<close> takes the last element and raises
  \<^verbatim>\<open>IndexError\<close> on an empty list.
\<close>

definition reconfigure ::
  "prims \<Rightarrow> session \<Rightarrow> nat list \<Rightarrow> nat list list \<Rightarrow> bool
   \<Rightarrow> (exn + (bool \<times> nat list \<times> nat list list \<times> session)) option" where
  "reconfigure P s change changes do_loop =
     (if do_loop then Some (Inr (True, change, changes, s))
      else if changes = [] then Some (Inl IndexError)
      else (let last_change = change;
                change' = last changes;
                changes' = butlast changes;
                delta = change_delta change' last_change
            in case apply_delta P s delta 0 of
                 None \<Rightarrow> None
               | Some (Inl e) \<Rightarrow> Some (Inl e)
               | Some (Inr (None, s1)) \<Rightarrow> Some (Inr (True, change', changes', s1))
               | Some (Inr (Some i, s1)) \<Rightarrow>
                   (case actual_change (take i delta) last_change of
                      Inl e \<Rightarrow> Some (Inl e)
                    | Inr change'' \<Rightarrow> Some (Inr (False, change'', changes', s1)))))"

text \<open>
  The second half: ordering, then validation unless an incompatibility was found. The
  result is \<^verbatim>\<open>conflicting_augments\<close>, the list \<^verbatim>\<open>augments\<close> and the session.
\<close>

definition order_and_validate ::
  "prims \<Rightarrow> session \<Rightarrow> nat list \<Rightarrow> exn + (nat list \<times> nat list \<times> session)" where
  "order_and_validate P s augs =
     (case order_augments s augs of
        Inl e \<Rightarrow> Inl e
      | Inr (Some (a, x), augs') \<Rightarrow> Inr ([a, x], augs', s)
      | Inr (None, augs') \<Rightarrow>
          (case validate_augments P s augs' of
             Inl (e, s1) \<Rightarrow> Inl e
           | Inr (invalid_augments, s1) \<Rightarrow> Inr (invalid_augments, augs', s1)))"

text \<open>
  The loop \<^verbatim>\<open>while (len(changes) or do_loop)\<close>. Nothing bounds the number of retries
  in general, so \<open>None\<close> is the run that does not return. The result is \<^verbatim>\<open>added\<close> and
  the session; the committed list \<^verbatim>\<open>self._augments\<close> is assigned on success only.
\<close>

partial_function (option) AddAugment_loop ::
  "prims \<Rightarrow> session \<Rightarrow> nat list \<Rightarrow> nat list \<Rightarrow> nat list list \<Rightarrow> bool
   \<Rightarrow> (exn + (bool \<times> session)) option" where
  "AddAugment_loop P s augs change changes do_loop =
     (if changes = [] \<and> \<not> do_loop then Some (Inr (False, s))
      else (case reconfigure P s change changes do_loop of
              None \<Rightarrow> None
            | Some (Inl e) \<Rightarrow> Some (Inl e)
            | Some (Inr (proceed, change', changes', s1)) \<Rightarrow>
                if \<not> proceed then AddAugment_loop P s1 augs change' changes' False
                else (case order_and_validate P s1 augs of
                        Inl e \<Rightarrow> Some (Inl e)
                      | Inr (conflicting_augments, augs', s2) \<Rightarrow>
                          if conflicting_augments \<noteq> []
                          then AddAugment_loop P s2 augs' change'
                                 (changes' @ map (\<lambda>augment. change' @ [augment]) conflicting_augments)
                                 False
                          else Some (Inr (True, s2\<lparr>augments := augs'\<rparr>)))))"

declare AddAugment_loop.simps [code]

text \<open>\<^verbatim>\<open>AddAugment(spec)\<close>, returning \<^verbatim>\<open>added\<close>.\<close>

definition AddAugment :: "prims \<Rightarrow> session \<Rightarrow> spec \<Rightarrow> (exn + (bool \<times> session)) option" where
  "AddAugment P s sp =
     (case clone_augments (augments s) (heap s) [] of
        (cloned, h) \<Rightarrow>
          (let augment = length h;
               s1 = s\<lparr>heap := h @ [new_augment sp]\<rparr>;
               s2 = (if \<not> pre_applied s1 \<and> ENVPre P \<noteq> None
                     then s1\<lparr>current := set_vars_opt (ENVPre P) (current s1), pre_applied := True\<rparr>
                     else s1);
               augs = cloned @ [augment]
           in if Components sp = None
              then (case validate_augments P s2 augs of
                      Inl (e, s3) \<Rightarrow> Some (Inl e)
                    | Inr (invalid_augments, s3) \<Rightarrow>
                        if invalid_augments = [] then Some (Inr (True, s3\<lparr>augments := augs\<rparr>))
                        else Some (Inr (False, s3)))
              else (case set_component P s2 augment 0 of
                      None \<Rightarrow> None
                    | Some (Inl e) \<Rightarrow> Some (Inl e)
                    | Some (Inr (do_loop, s3)) \<Rightarrow> AddAugment_loop P s3 augs [] [] do_loop)))"

subsection \<open>\<^verbatim>\<open>Finalize\<close>\<close>

text \<open>The loop \<^verbatim>\<open># Add all augments tools and checks\<close>.\<close>

fun final_tools :: "augment list \<Rightarrow> nat list \<Rightarrow> string list" where
  "final_tools h [] = []"
| "final_tools h (a # as) =
     (case Tool (h ! a) of
        None \<Rightarrow> final_tools h as
      | Some t \<Rightarrow> if t = [] then final_tools h as else t # final_tools h as)"

fun final_checks :: "augment list \<Rightarrow> nat list \<Rightarrow> nat list" where
  "final_checks h [] = []"
| "final_checks h (a # as) = checks_of (Checks (Specification (h ! a))) @ final_checks h as"

text \<open>
  \<^verbatim>\<open>Finalize()\<close>: the checks are passed as the fourth argument of \<^verbatim>\<open>_apply_env\<close>, the
  optional checks, and the failed checks returned are not looked at.
\<close>

definition Finalize :: "prims \<Rightarrow> session \<Rightarrow> exn + (env \<times> session)" where
  "Finalize P s =
     (case apply_env P s (final_tools (heap s) (augments s)) True None
             (Some (final_checks (heap s) (augments s))) of
        Inl (e, s1) \<Rightarrow> Inl e
      | Inr (failed_checks, s1) \<Rightarrow>
          (let s2 = s1\<lparr>current := set_vars_opt (ENVPost P) (current s1)\<rparr>
           in Inr (current s2, s2)))"

subsection \<open>Requests: \<^verbatim>\<open>ConfExSpecification\<close>, \<^verbatim>\<open>__find\<close>, \<^verbatim>\<open>FindComponent\<close>\<close>







subsection \<open>The contiguity of the augments of one tool\<close>

text \<open>
  A list of tools, one per augment in apply order, is contiguous when the augments of
  any one tool occupy a contiguous range: between two positions with the same tool
  (a tool is a non-empty name) every position has that tool.
\<close>

definition contiguous :: "string option list \<Rightarrow> bool" where
  "contiguous ts =
     (\<forall>i j k. i < j \<and> j < k \<and> k < length ts \<and> truthy (ts ! i) \<and> ts ! k = ts ! i
        \<longrightarrow> ts ! j = ts ! i)"

subsection \<open>An example configuration\<close>

text \<open>
  A base environment with the key \<^verbatim>\<open>INCLUDE\<close>, two linkers that both provide
  \<^verbatim>\<open>LD\<close> and a compiler that provides \<^verbatim>\<open>CC\<close>. Check 0 raises, checks 1 to 5
  return \<^verbatim>\<open>True\<close>, \<^verbatim>\<open>False\<close>, \<^verbatim>\<open>None\<close>, a message and \<^verbatim>\<open>0\<close>; check 6
  passes when \<^verbatim>\<open>llvm-ld\<close> is among the tools of the environment.
\<close>

definition demo_base :: env where
  "demo_base = \<lparr>TOOLS = [], vars = [''INCLUDE'' \<mapsto> ''/usr/include'']\<rparr>"

definition demo_check :: "nat \<Rightarrow> env \<Rightarrow> (exn + pyval) \<times> env" where
  "demo_check c e =
     (if c = 0 then (Inl (CheckException ''boom''), e)
      else if c = 1 then (Inr (PyBool True), e)
      else if c = 2 then (Inr (PyBool False), e)
      else if c = 3 then (Inr PyNone, e)
      else if c = 4 then (Inr (PyStr ''no header''), e)
      else if c = 5 then (Inr (PyInt 0), e)
      else if c = 6 then (Inr (PyBool (''llvm-ld'' \<in> set (TOOLS e))), e)
      else (Inr (PyBool True), e))"

definition demo_trial :: "env \<Rightarrow> string \<Rightarrow> string list \<times> string list \<times> string list" where
  "demo_trial b t =
     (TOOLS b @ [t],
      (if t = ''gnu-ld'' \<or> t = ''llvm-ld'' then [''LD''] else if t = ''gcc'' then [''CC''] else []),
      [])"

definition demo_prims :: prims where
  "demo_prims =
     \<lparr>tool_apply = (\<lambda>t e. e\<lparr>TOOLS := TOOLS e @ [t]\<rparr>),
      check_fn = demo_check,
      trial = demo_trial,
      ENVPre = None,
      ENVPost = None\<rparr>"

definition demo_cache :: cache where
  "demo_cache =
     \<lparr>Tools = [''gnu-ld'', ''llvm-ld'', ''gcc''],
      ToolComponents =
        [''gnu-ld'' \<mapsto> [''LD'' \<mapsto> [''no_overlap'']],
         ''llvm-ld'' \<mapsto> [''LD'' \<mapsto> [''no_overlap'']],
         ''gcc'' \<mapsto> [''CC'' \<mapsto> [''no_overlap'']]]\<rparr>"

definition demo_session :: session where
  "demo_session =
     \<lparr>base = demo_base, current = demo_base, augments = [], heap = [], cache = demo_cache,
      applied_tools = [], applied_checks = [], pre_applied = False,
      executed = [], probes = 0, lookups = 0\<rparr>"

definition demo_spec :: "nat \<Rightarrow> string list option \<Rightarrow> nat list option \<Rightarrow> nat list option \<Rightarrow> spec" where
  "demo_spec i components checks depends =
     \<lparr>sid = i, Name = ''demo'', Components = components, Checks = checks,
      Dependencies = depends\<rparr>"

section \<open>Properties\<close>

subsection \<open>The record of the checks executed\<close>


lemma apply_tools_executed [simp]: "executed (apply_tools P ts n s) = executed s"
  by (induction ts arbitrary: n s) (simp_all add: Let_def)

lemma apply_tools_applied_checks [simp]: "applied_checks (apply_tools P ts n s) = applied_checks s"
  by (induction ts arbitrary: n s) (simp_all add: Let_def)

lemma apply_tools_applied_tools [simp]: "applied_tools (apply_tools P ts n s) = applied_tools s @ ts"
  by (induction ts arbitrary: n s) (simp_all add: Let_def)

lemma apply_tools_heap [simp]: "heap (apply_tools P ts n s) = heap s"
  by (induction ts arbitrary: n s) (simp_all add: Let_def)

lemma apply_tools_augments [simp]: "augments (apply_tools P ts n s) = augments s"
  by (induction ts arbitrary: n s) (simp_all add: Let_def)

lemma tools_phase_executed [simp]: "executed (tools_phase P tools exact s) = executed s"
  by (simp add: tools_phase_def reset_environment_def split: prod.splits)

lemma run_checks_log:
  "run_checks P required cs s failed = Inr (s', failed') \<Longrightarrow>
   \<exists>new. executed s' = executed s @ new \<and>
         failed' = failed @ map fst (filter (\<lambda>cr. check_failed (snd cr)) new)"
proof (induction cs arbitrary: s failed)
  case Nil
  then show ?case by simp
next
  case (Cons c cs)
  show ?case
  proof (cases "c \<in> set (applied_checks s) \<and> \<not> required")
    case True
    with Cons.prems have "run_checks P required cs s failed = Inr (s', failed')"
      by (simp add: Let_def)
    from Cons.IH[OF this] show ?thesis .
  next
    case False
    define s1 where "s1 = (if c \<in> set (applied_checks s) then s else s\<lparr>applied_checks := applied_checks s @ [c]\<rparr>)"
    have ex1: "executed s1 = executed s" by (simp add: s1_def)
    obtain r env' where r: "check_fn P c (current s1) = (r, env')" by (cases "check_fn P c (current s1)")
    show ?thesis
    proof (cases r)
      case (Inl e)
      with Cons.prems False r show ?thesis by (auto simp: Let_def s1_def split: if_splits)
    next
      case (Inr result)
      with Cons.prems False r have
        "run_checks P required cs (s1\<lparr>current := env', executed := executed s1 @ [(c, result)]\<rparr>)
            (if check_failed result then failed @ [c] else failed) = Inr (s', failed')"
        by (auto simp: Let_def s1_def split: if_splits)
      from Cons.IH[OF this] obtain new where
        "executed s' = (executed s1 @ [(c, result)]) @ new"
        "failed' = (if check_failed result then failed @ [c] else failed) @ map fst (filter (\<lambda>cr. check_failed (snd cr)) new)"
        by auto
      then show ?thesis using ex1
        by (auto intro!: exI[of _ "(c, result) # new"])
    qed
  qed
qed

lemma checks_phase_log:
  assumes "checks_phase P req opt s = Inr (failed, s')"
  shows "\<exists>new. executed s' = executed s @ new \<and>
         failed = map fst (filter (\<lambda>cr. check_failed (snd cr)) new)"
proof -
  from assms obtain s1 f1 where
    a: "run_checks P True (checks_of req) s [] = Inr (s1, f1)" and
    b: "run_checks P False (checks_of opt) s1 f1 = Inr (s', failed)"
    by (auto simp: checks_phase_def split: sum.splits prod.splits)
  from run_checks_log[OF a] obtain n1 where n1: "executed s1 = executed s @ n1" "f1 = map fst (filter (\<lambda>cr. check_failed (snd cr)) n1)" by auto
  from run_checks_log[OF b] obtain n2 where n2: "executed s' = executed s1 @ n2" "failed = f1 @ map fst (filter (\<lambda>cr. check_failed (snd cr)) n2)" by auto
  show ?thesis using n1 n2 by (auto intro!: exI[of _ "n1 @ n2"])
qed

text \<open>
  Claim C10. The failed checks returned by \<^verbatim>\<open>_apply_env\<close> are exactly the executed
  checks whose returned value compares equal to \<^verbatim>\<open>False\<close> or is a non-empty
  string, in the order of execution; a check that returned \<^verbatim>\<open>None\<close> (and nothing
  else) is not among them.
\<close>

theorem apply_env_failed_classification:
  assumes "apply_env P s tools exact req_checks opt_checks = Inr (failed_checks, s')"
  shows "\<exists>new. executed s' = executed s @ new \<and>
           failed_checks =
             map fst (filter (\<lambda>(check, result).
                        py_eq_False result \<or> (\<exists>str. result = PyStr str \<and> str \<noteq> [])) new) \<and>
           (\<forall>check. (check, PyNone) \<in> set new \<and>
                (\<forall>result. (check, result) \<in> set new \<longrightarrow> result = PyNone)
                \<longrightarrow> check \<notin> set failed_checks)"
proof -
  have eq: "check_failed r = (py_eq_False r \<or> (\<exists>str. r = PyStr str \<and> str \<noteq> []))" for r
    by (cases r) (auto simp: check_failed_def)
  from assms have "checks_phase P req_checks opt_checks (tools_phase P tools exact s) = Inr (failed_checks, s')"
    by (simp add: apply_env_def)
  from checks_phase_log[OF this] obtain new where
    n: "executed s' = executed s @ new" "failed_checks = map fst (filter (\<lambda>cr. check_failed (snd cr)) new)"
    by auto
  have "\<forall>check. (check, PyNone) \<in> set new \<and> (\<forall>result. (check, result) \<in> set new \<longrightarrow> result = PyNone) \<longrightarrow> check \<notin> set failed_checks"
    using n(2) by (auto simp: check_failed_def)
  with n show ?thesis by (auto simp: eq case_prod_unfold)
qed

theorem apply_env_failed_classification_witness:
  "\<exists>s'. apply_env demo_prims demo_session [] False (Some [3, 2, 1]) (Some [4, 5])
           = Inr ([2, 4, 5], s') \<and>
     (\<exists>new. executed s' = executed demo_session @ new \<and>
        [2, 4, 5] =
          map fst (filter (\<lambda>(check, result).
                     py_eq_False result \<or> (\<exists>str. result = PyStr str \<and> str \<noteq> [])) new) \<and>
        (\<forall>check. (check, PyNone) \<in> set new \<and>
             (\<forall>result. (check, result) \<in> set new \<longrightarrow> result = PyNone)
             \<longrightarrow> check \<notin> set [2, 4, 5]))"
proof -
  have "\<exists>s'. apply_env demo_prims demo_session [] False (Some [3, 2, 1]) (Some [4, 5])
           = Inr ([2, 4, 5], s')"
    by (simp add: apply_env_def tools_phase_def apply_plan_def checks_phase_def checks_of_def
        demo_session_def demo_prims_def demo_check_def check_failed_def Let_def)
  then obtain s' where
    h: "apply_env demo_prims demo_session [] False (Some [3, 2, 1]) (Some [4, 5])
           = Inr ([2, 4, 5], s')" by blast
  show ?thesis
    by (rule exI[of _ s']) (rule conjI[OF h apply_env_failed_classification[OF h]])
qed

subsection \<open>Which checks a pass executes\<close>

lemma run_checks_required_trace:
  "run_checks P True cs s failed = Inr (s', failed') \<Longrightarrow>
   \<exists>new. executed s' = executed s @ new \<and> map fst new = cs \<and>
         set (applied_checks s') = set (applied_checks s) \<union> set cs"
proof (induction cs arbitrary: s failed)
  case Nil
  then show ?case by simp
next
  case (Cons c cs)
  define s1 where "s1 = (if c \<in> set (applied_checks s) then s else s\<lparr>applied_checks := applied_checks s @ [c]\<rparr>)"
  have s1: "executed s1 = executed s" "set (applied_checks s1) = insert c (set (applied_checks s))"
    by (auto simp: s1_def)
  obtain r e1 where r: "check_fn P c (current s1) = (r, e1)" by (cases "check_fn P c (current s1)")
  show ?case
  proof (cases r)
    case (Inl e)
    with Cons.prems r show ?thesis by (auto simp: Let_def s1_def split: if_splits)
  next
    case (Inr result)
    with Cons.prems r have
      "run_checks P True cs (s1\<lparr>current := e1, executed := executed s1 @ [(c, result)]\<rparr>)
          (if check_failed result then failed @ [c] else failed) = Inr (s', failed')"
      by (auto simp: Let_def s1_def split: if_splits)
    from Cons.IH[OF this] obtain new where
      "executed s' = (executed s1 @ [(c, result)]) @ new" "map fst new = cs"
      "set (applied_checks s') = set (applied_checks s1) \<union> set cs"
      by auto
    then show ?thesis using s1
      by (auto intro!: exI[of _ "(c, result) # new"])
  qed
qed

lemma run_checks_optional_trace:
  "run_checks P False cs s failed = Inr (s', failed') \<Longrightarrow>
   \<exists>new. executed s' = executed s @ new \<and> distinct (map fst new) \<and>
         set (map fst new) = set cs - set (applied_checks s) \<and>
         set (applied_checks s') = set (applied_checks s) \<union> set cs"
proof (induction cs arbitrary: s failed)
  case Nil
  then show ?case by simp
next
  case (Cons c cs)
  show ?case
  proof (cases "c \<in> set (applied_checks s)")
    case True
    with Cons.prems have "run_checks P False cs s failed = Inr (s', failed')"
      by (simp add: Let_def)
    from Cons.IH[OF this] True show ?thesis by auto
  next
    case False
    define s1 where "s1 = s\<lparr>applied_checks := applied_checks s @ [c]\<rparr>"
    obtain r e1 where r: "check_fn P c (current s1) = (r, e1)" by (cases "check_fn P c (current s1)")
    show ?thesis
    proof (cases r)
      case (Inl e)
      with Cons.prems r False show ?thesis by (auto simp: Let_def s1_def)
    next
      case (Inr result)
      with Cons.prems r False have
        "run_checks P False cs (s1\<lparr>current := e1, executed := executed s1 @ [(c, result)]\<rparr>)
            (if check_failed result then failed @ [c] else failed) = Inr (s', failed')"
        by (auto simp: Let_def s1_def)
      from Cons.IH[OF this] obtain new where n:
        "executed s' = (executed s @ [(c, result)]) @ new" "distinct (map fst new)"
        "set (map fst new) = set cs - insert c (set (applied_checks s))"
        "set (applied_checks s') = insert c (set (applied_checks s)) \<union> set cs"
        by (auto simp: s1_def)
      have "c \<notin> set (map fst new)" using n(3) by auto
      with n False show ?thesis
        by (intro exI[of _ "(c, result) # new"]) auto
    qed
  qed
qed

lemma tools_phase_applied_checks:
  "applied_checks (tools_phase P tools exact s) =
     (if fst (apply_plan (applied_tools s) tools exact) then [] else applied_checks s)"
  by (simp add: tools_phase_def reset_environment_def split: prod.splits)

lemma apply_env_trace:
  assumes "apply_env P s tools exact req opt = Inr (failed, s')"
  shows "\<exists>new opt_run. executed s' = executed s @ new \<and>
           map fst new = checks_of req @ opt_run \<and> distinct opt_run \<and>
           set opt_run = set (checks_of opt) - set (checks_of req)
                           - set (applied_checks (tools_phase P tools exact s)) \<and>
           set (applied_checks s') =
             set (applied_checks (tools_phase P tools exact s)) \<union> set (checks_of req)
               \<union> set (checks_of opt)"
proof -
  let ?t = "tools_phase P tools exact s"
  from assms obtain s1 f1 where
    a: "run_checks P True (checks_of req) ?t [] = Inr (s1, f1)" and
    b: "run_checks P False (checks_of opt) s1 f1 = Inr (s', failed)"
    by (auto simp: apply_env_def checks_phase_def split: sum.splits prod.splits)
  from run_checks_required_trace[OF a] obtain n1 where n1:
    "executed s1 = executed ?t @ n1" "map fst n1 = checks_of req"
    "set (applied_checks s1) = set (applied_checks ?t) \<union> set (checks_of req)" by auto
  from run_checks_optional_trace[OF b] obtain n2 where n2:
    "executed s' = executed s1 @ n2" "distinct (map fst n2)"
    "set (map fst n2) = set (checks_of opt) - set (applied_checks s1)"
    "set (applied_checks s') = set (applied_checks s1) \<union> set (checks_of opt)" by auto
  show ?thesis
    using n1 n2 by (intro exI[of _ "n1 @ n2"] exI[of _ "map fst n2"]) auto
qed

text \<open>
  Claim C2, as amended. A pass executes every check of its required list, in order and
  whether or not it is remembered in \<^verbatim>\<open>__applied_checks\<close>, and then, once each, the
  optional checks that are neither required nor remembered, where a pass that resets
  the environment has forgotten every check. So a check held by the pass is skipped
  exactly when it is optional only, is remembered, and the pass does not reset the
  environment. Afterwards the checks remembered are those remembered before (none after
  a reset) and all checks held by the pass.
\<close>

theorem apply_env_rerun:
  assumes "apply_env P s tools exact req_checks opt_checks = Inr (failed_checks, s')"
  shows "\<exists>new opt_run. executed s' = executed s @ new \<and>
           map fst new = checks_of req_checks @ opt_run \<and> distinct opt_run \<and>
           set opt_run =
             {c \<in> set (checks_of opt_checks). c \<notin> set (checks_of req_checks) \<and>
                (fst (apply_plan (applied_tools s) tools exact) \<or> c \<notin> set (applied_checks s))} \<and>
           set (applied_checks s') =
             (if fst (apply_plan (applied_tools s) tools exact) then {}
              else set (applied_checks s))
             \<union> set (checks_of req_checks) \<union> set (checks_of opt_checks)"
proof -
  from apply_env_trace[OF assms] obtain new opt_run where n:
    "executed s' = executed s @ new"
    "map fst new = checks_of req_checks @ opt_run" "distinct opt_run"
    "set opt_run = set (checks_of opt_checks) - set (checks_of req_checks)
                           - set (applied_checks (tools_phase P tools exact s))"
    "set (applied_checks s') =
             set (applied_checks (tools_phase P tools exact s)) \<union> set (checks_of req_checks)
               \<union> set (checks_of opt_checks)"
    by blast
  have "set opt_run =
             {c \<in> set (checks_of opt_checks). c \<notin> set (checks_of req_checks) \<and>
                (fst (apply_plan (applied_tools s) tools exact) \<or> c \<notin> set (applied_checks s))}"
    unfolding n(4) by (auto simp: tools_phase_applied_checks)
  moreover have "set (applied_checks s') =
             (if fst (apply_plan (applied_tools s) tools exact) then {}
              else set (applied_checks s))
             \<union> set (checks_of req_checks) \<union> set (checks_of opt_checks)"
    unfolding n(5) by (simp add: tools_phase_applied_checks)
  ultimately show ?thesis using n(1,2,3) by blast
qed

text \<open>
  Claim C2 as stated fails: check 1 is required, executed and passed in a first pass;
  a second pass in which it is required again executes it again, although it was never
  run as an optional check.
\<close>

theorem apply_env_rerun_counterexample:
  "apply_env demo_prims demo_session [] False (Some [1]) None =
     Inr ([], demo_session\<lparr>applied_checks := [1], executed := [(1, PyBool True)]\<rparr>) \<and>
   apply_env demo_prims
       (demo_session\<lparr>applied_checks := [1], executed := [(1, PyBool True)]\<rparr>)
       [] False (Some [1]) None =
     Inr ([], demo_session\<lparr>applied_checks := [1],
                executed := [(1, PyBool True), (1, PyBool True)]\<rparr>)"
  by (simp add: apply_env_def tools_phase_def apply_plan_def checks_phase_def checks_of_def
      demo_session_def demo_prims_def demo_check_def check_failed_def Let_def)

theorem apply_env_rerun_witness:
  "(\<exists>s'. apply_env demo_prims
           (demo_session\<lparr>applied_checks := [1, 3], executed := [(1, PyBool True), (3, PyNone)]\<rparr>)
           [] False (Some [1]) (Some [3, 7]) = Inr ([], s') \<and>
     (\<exists>new opt_run. executed s' = [(1, PyBool True), (3, PyNone)] @ new \<and>
        map fst new = [1] @ opt_run \<and> distinct opt_run \<and> set opt_run = {7} \<and>
        set (applied_checks s') = {1, 3, 7})) \<and>
   (\<exists>s'. apply_env demo_prims
           (demo_session\<lparr>applied_tools := [''gcc''], applied_checks := [1, 3],
                          executed := [(1, PyBool True), (3, PyNone)]\<rparr>)
           [] True (Some [1]) (Some [3, 7]) = Inr ([], s') \<and>
     (\<exists>new opt_run. executed s' = [(1, PyBool True), (3, PyNone)] @ new \<and>
        map fst new = [1] @ opt_run \<and> distinct opt_run \<and> set opt_run = {3, 7} \<and>
        set (applied_checks s') = {1, 3, 7}))"
proof -
  let ?s = "demo_session\<lparr>applied_checks := [1, 3], executed := [(1, PyBool True), (3, PyNone)]\<rparr>"
  let ?t = "demo_session\<lparr>applied_tools := [''gcc''], applied_checks := [1, 3],
                          executed := [(1, PyBool True), (3, PyNone)]\<rparr>"
  have "\<exists>s'. apply_env demo_prims ?s [] False (Some [1]) (Some [3, 7]) = Inr ([], s')"
    by (simp add: apply_env_def tools_phase_def apply_plan_def checks_phase_def checks_of_def
      demo_session_def demo_prims_def demo_check_def check_failed_def Let_def)
  then obtain s' where h: "apply_env demo_prims ?s [] False (Some [1]) (Some [3, 7]) = Inr ([], s')"
    by blast
  have "\<exists>t'. apply_env demo_prims ?t [] True (Some [1]) (Some [3, 7]) = Inr ([], t')"
    by (simp add: apply_env_def tools_phase_def apply_plan_def checks_phase_def checks_of_def
      reset_environment_def set_vars_opt_def
      demo_session_def demo_prims_def demo_check_def check_failed_def Let_def)
  then obtain t' where g: "apply_env demo_prims ?t [] True (Some [1]) (Some [3, 7]) = Inr ([], t')"
    by blast
  have a: "executed ?s = [(1, PyBool True), (3, PyNone)]" "applied_checks ?s = [1, 3]"
    "applied_tools ?s = []" by (simp_all add: demo_session_def)
  have b: "executed ?t = [(1, PyBool True), (3, PyNone)]" "applied_checks ?t = [1, 3]"
    "applied_tools ?t = [''gcc'']" by (simp_all add: demo_session_def)
  have p: "\<not> fst (apply_plan [] [] False)" "fst (apply_plan [''gcc''] [] True)"
    by (simp_all add: apply_plan_def)
  have c: "checks_of (Some [1]) = [1]" "checks_of (Some [3, 7]) = [3, 7]"
    by (simp_all add: checks_of_def)
  have e1: "{c \<in> set [3, 7::nat]. c \<notin> set [1] \<and> (False \<or> c \<notin> set [1, 3])} = {7}" by auto
  have e2: "{c \<in> set [3, 7::nat]. c \<notin> set [1] \<and> (True \<or> c \<notin> set [1, 3])} = {3, 7}" by auto
  have e3: "set [1, 3::nat] \<union> set [1] \<union> set [3, 7] = {1, 3, 7}"
    "{} \<union> set [1::nat] \<union> set [3, 7] = {1, 3, 7}" by auto
  note r1 = apply_env_rerun[OF h, unfolded a c, unfolded Eq_TrueI[OF p(2)] Eq_FalseI[OF p(1)]
      if_False e1 e3]
  note r2 = apply_env_rerun[OF g, unfolded b c, unfolded Eq_TrueI[OF p(2)] Eq_FalseI[OF p(1)]
      if_True e2 e3]
  show ?thesis
    by (rule conjI, (rule exI[of _ s'], rule conjI[OF h r1]),
        (rule exI[of _ t'], rule conjI[OF g r2]))
qed

subsection \<open>The decision between appending and resetting\<close>

lemma index_of_None: "index_of xs x = None \<longleftrightarrow> x \<notin> set xs"
  by (induction xs) auto

lemma index_of_Some:
  "index_of xs x = Some i \<Longrightarrow> i < length xs \<and> xs ! i = x \<and> (\<forall>j<i. xs ! j \<noteq> x)"
proof (induction xs arbitrary: i)
  case Nil
  then show ?case by simp
next
  case (Cons y ys)
  show ?case
  proof (cases "y = x")
    case True
    with Cons.prems show ?thesis by simp
  next
    case False
    with Cons.prems obtain k where k: "index_of ys x = Some k" "i = Suc k" by auto
    from Cons.IH[OF k(1)] False k(2) show ?thesis
      by (auto simp: nth_Cons split: nat.splits)
  qed
qed

lemma index_of_distinct:
  "distinct xs \<Longrightarrow> k < length xs \<Longrightarrow> index_of xs (xs ! k) = Some k"
proof (induction xs arbitrary: k)
  case Nil
  then show ?case by simp
next
  case (Cons y ys)
  show ?case
  proof (cases k)
    case 0
    then show ?thesis by simp
  next
    case (Suc m)
    with Cons.prems have "ys ! m \<in> set ys" "m < length ys" by auto
    with Cons.prems Suc have "y \<noteq> ys ! m" by auto
    with Cons.IH[of m] Cons.prems Suc show ?thesis by auto
  qed
qed

lemma find_start_unfound:
  "set ts \<inter> set applied = {} \<Longrightarrow> expected = int (length applied) \<Longrightarrow> append_idx \<noteq> n \<Longrightarrow>
   find_start applied n ts i expected append_idx = (False, append_idx)"
proof (induction ts arbitrary: i)
  case Nil
  then show ?case by simp
next
  case (Cons t ts)
  then have "index_of applied t = None" by (simp add: index_of_None)
  with Cons show ?case by auto
qed

lemma find_start_suffix:
  "set ts \<inter> set applied = {} \<Longrightarrow> expected = int (length applied) \<Longrightarrow> i < n \<or> ts = [] \<Longrightarrow>
   find_start applied n ts i expected n = (False, if ts = [] then n else i)"
proof (cases ts)
  case Nil
  then show ?thesis by simp
next
  case (Cons t ts')
  assume a: "set ts \<inter> set applied = {}" "expected = int (length applied)" "i < n \<or> ts = []"
  with Cons have "index_of applied t = None" by (simp add: index_of_None)
  moreover have "find_start applied n ts' (Suc i) expected i = (False, i)"
    using a Cons by (intro find_start_unfound) auto
  ultimately show ?thesis using Cons a by auto
qed

lemma find_start_none_applied:
  "n \<noteq> 0 \<Longrightarrow> find_start [] n ts i (-1) 0 = (False, 0)"
  by (induction ts arbitrary: i) auto

lemma find_start_prefix:
  "distinct applied \<Longrightarrow> 0 < k \<Longrightarrow> k \<le> length applied \<Longrightarrow>
   find_start applied n (drop k applied @ suffix) k (int k) append_idx =
   find_start applied n suffix (length applied) (int (length applied)) append_idx"
proof (induction "length applied - k" arbitrary: k)
  case 0
  then show ?case by simp
next
  case (Suc m)
  then have k: "k < length applied" by simp
  then have d: "drop k applied = applied ! k # drop (Suc k) applied"
    by (simp add: Cons_nth_drop_Suc)
  have idx: "index_of applied (applied ! k) = Some k"
    using Suc.prems(1) k by (rule index_of_distinct)
  have "find_start applied n (drop k applied @ suffix) k (int k) append_idx =
        find_start applied n (drop (Suc k) applied @ suffix) (Suc k) (int (Suc k)) append_idx"
    using Suc.prems(2) idx by (simp add: d Let_def add.commute)
  also have "\<dots> = find_start applied n suffix (length applied) (int (length applied)) append_idx"
    using Suc.hyps Suc.prems k by (intro Suc.hyps(1)) auto
  finally show ?case .
qed

lemma apply_plan_extension:
  assumes "distinct applied" and "set suffix \<inter> set applied = {}"
  shows "apply_plan applied (applied @ suffix) exact = (False, length applied)"
proof -
  let ?tools = "applied @ suffix"
  let ?n = "length ?tools"
  have noreset: "\<not> (exact \<and> (\<exists>tool \<in> set applied. tool \<notin> set ?tools))" by simp
  have "find_start applied ?n ?tools 0 (-1) ?n = (False, length applied)"
  proof (cases applied)
    case Nil
    show ?thesis
    proof (cases suffix)
      case Nil
      with \<open>applied = []\<close> show ?thesis by simp
    next
      case (Cons t ts)
      have "find_start [] (Suc (length ts)) ts (Suc 0) (- 1) 0 = (False, 0)"
        by (rule find_start_none_applied) simp
      with Cons \<open>applied = []\<close> show ?thesis by simp
    qed
  next
    case (Cons a as)
    have i0: "index_of applied a = Some 0" using Cons by simp
    have cond: "?n > 1 \<or> int 0 = int (length applied) - 1"
      using Cons by (cases as; cases suffix) auto
    have "find_start applied ?n ?tools 0 (-1) ?n =
          find_start applied ?n (drop 1 applied @ suffix) 1 (int 1) ?n"
      using i0 cond Cons by (simp add: Let_def)
    also have "\<dots> = find_start applied ?n suffix (length applied) (int (length applied)) ?n"
      using assms(1) Cons by (intro find_start_prefix) auto
    also have "\<dots> = (False, if suffix = [] then ?n else length applied)"
      using assms(2) by (intro find_start_suffix) (cases suffix, auto)
    finally show ?thesis by auto
  qed
  with noreset show ?thesis unfolding apply_plan_def by (simp only: if_False)
qed


lemma find_start_increasing:
  "find_start applied n ts i expected append_idx = (False, a) \<Longrightarrow> 0 < i \<Longrightarrow>
   j < length ts \<Longrightarrow> index_of applied (ts ! j) = Some p \<Longrightarrow>
   expected \<le> int p \<and> (\<forall>j'<j. \<forall>p'. index_of applied (ts ! j') = Some p' \<longrightarrow> p' < p)"
proof (induction ts arbitrary: i expected append_idx j)
  case Nil
  then show ?case by simp
next
  case (Cons t ts)
  show ?case
  proof (cases "index_of applied t")
    case None
    with Cons.prems obtain m where j: "j = Suc m" by (cases j) auto
    from None Cons.prems obtain ap where
      rec: "find_start applied n ts (Suc i) expected ap = (False, a)"
      by (auto split: if_splits)
    from Cons.IH[OF rec _ _ _, of m] Cons.prems j
    have "expected \<le> int p \<and> (\<forall>j'<m. \<forall>p'. index_of applied (ts ! j') = Some p' \<longrightarrow> p' < p)"
      by simp
    with None j show ?thesis by (auto simp: nth_Cons split: nat.splits)
  next
    case (Some actual)
    with Cons.prems have eq: "int actual = expected" and
      rec: "find_start applied n ts (Suc i) (expected + 1) append_idx = (False, a)"
      by (auto simp: Let_def split: if_splits)
    show ?thesis
    proof (cases j)
      case 0
      with Cons.prems Some eq show ?thesis by simp
    next
      case (Suc m)
      from Cons.IH[OF rec _ _ _, of m] Cons.prems Suc
      have ih: "expected + 1 \<le> int p"
        "\<forall>j'<m. \<forall>p'. index_of applied (ts ! j') = Some p' \<longrightarrow> p' < p"
        by simp_all
      show ?thesis using ih Suc Some eq
        by (auto simp: nth_Cons split: nat.splits)
    qed
  qed
qed

lemma apply_plan_order:
  assumes "i < j" and "j < length tools"
    and "index_of applied (tools ! i) = Some p" and "index_of applied (tools ! j) = Some q"
    and "q \<le> p"
  shows "fst (apply_plan applied tools exact)"
proof (rule ccontr)
  assume neg: "\<not> fst (apply_plan applied tools exact)"
  then obtain a where fs: "find_start applied (length tools) tools 0 (-1) (length tools) = (False, a)"
    by (cases "find_start applied (length tools) tools 0 (-1) (length tools)")
       (auto simp: apply_plan_def split: if_splits)
  from assms obtain t ts where tools: "tools = t # ts" by (cases tools) auto
  from assms(1) obtain m where j: "j = Suc m" by (cases j) auto
  have m: "m < length ts" "index_of applied (ts ! m) = Some q"
    using assms(2,4) tools j by auto
  show False
  proof (cases "index_of applied t")
    case None
    with assms(3) tools obtain k where i: "i = Suc k" by (cases i) auto
    from None fs tools obtain ap where
      rec: "find_start applied (length tools) ts (Suc 0) (-1) ap = (False, a)"
      by (auto split: if_splits)
    from find_start_increasing[OF rec _ m] i j assms(1,3,5) tools show False
      by fastforce
  next
    case (Some actual)
    with fs tools have
      rec: "find_start applied (length tools) ts (Suc 0) (int actual + 1) (length tools) = (False, a)"
      by (auto simp: Let_def split: if_splits)
    from find_start_increasing[OF rec _ m]
    have inc: "int actual + 1 \<le> int q"
      "\<forall>j'<m. \<forall>p'. index_of applied (ts ! j') = Some p' \<longrightarrow> p' < q" by simp_all
    show False
    proof (cases i)
      case 0
      with assms(3) tools Some have "p = actual" by simp
      with inc(1) assms(5) show False by simp
    next
      case (Suc k)
      with inc(2) j assms(1,3,5) tools show False by fastforce
    qed
  qed
qed

lemma find_start_set_append:
  "append_idx \<noteq> n \<Longrightarrow> n \<noteq> 0 \<Longrightarrow> find_start applied n ts i expected append_idx = (r, a) \<Longrightarrow>
   a = append_idx \<or> a = 0"
proof (induction ts arbitrary: i expected append_idx)
  case Nil
  then show ?case by simp
next
  case (Cons t ts)
  show ?case
  proof (cases "index_of applied t")
    case None
    show ?thesis
    proof (cases "expected = -1")
      case True
      with None Cons.prems have rec: "find_start applied n ts (Suc i) expected 0 = (r, a)" by simp
      from Cons.IH[OF _ Cons.prems(2) rec] Cons.prems(2) show ?thesis by auto
    next
      case False
      show ?thesis
      proof (cases "expected = int (length applied)")
        case True
        with None False Cons.prems have
          rec: "find_start applied n ts (Suc i) expected append_idx = (r, a)" by simp
        from Cons.IH[OF Cons.prems(1,2) rec] show ?thesis .
      next
        case e: False
        with None False Cons.prems show ?thesis by simp
      qed
    qed
  next
    case (Some actual)
    show ?thesis
    proof (cases "int actual = (if i = 0 \<and> (n > 1 \<or> int actual = int (length applied) - 1)
                  then int actual else expected)")
      case True
      with Some Cons.prems obtain e' where
        rec: "find_start applied n ts (Suc i) e' append_idx = (r, a)"
        by (auto simp: Let_def split: if_splits)
      from Cons.IH[OF Cons.prems(1,2) rec] show ?thesis .
    next
      case False
      with Some Cons.prems show ?thesis by (auto simp: Let_def split: if_splits)
    qed
  qed
qed

lemma find_start_found_prefix:
  "find_start applied n ts i expected n = (False, a) \<Longrightarrow> n = i + length ts \<Longrightarrow>
   a = 0 \<or> (i \<le> a \<and> a \<le> n \<and> set (take (a - i) ts) \<subseteq> set applied)"
proof (induction ts arbitrary: i expected)
  case Nil
  then show ?case by simp
next
  case (Cons t ts)
  then have n0: "n \<noteq> 0" "i \<noteq> n" by auto
  show ?case
  proof (cases "index_of applied t")
    case None
    show ?thesis
    proof (cases "expected = -1")
      case True
      with None Cons.prems have rec: "find_start applied n ts (Suc i) expected 0 = (False, a)" by simp
      from find_start_set_append[OF _ n0(1) rec] n0 show ?thesis by auto
    next
      case False
      with None Cons.prems have rec: "find_start applied n ts (Suc i) expected i = (False, a)"
        by (auto split: if_splits)
      from find_start_set_append[OF n0(2) n0(1) rec] Cons.prems(2) show ?thesis by auto
    qed
  next
    case (Some actual)
    with Cons.prems obtain e' where
      rec: "find_start applied n ts (Suc i) e' n = (False, a)"
      by (auto simp: Let_def split: if_splits)
    from Cons.IH[OF rec] Cons.prems(2)
    have ih: "a = 0 \<or> (Suc i \<le> a \<and> a \<le> n \<and> set (take (a - Suc i) ts) \<subseteq> set applied)" by simp
    have tin: "t \<in> set applied" using Some index_of_None[of applied t] by auto
    show ?thesis
    proof (cases "a = 0")
      case True
      then show ?thesis by simp
    next
      case False
      with ih have b: "Suc i \<le> a" "a \<le> n" "set (take (a - Suc i) ts) \<subseteq> set applied" by auto
      then obtain d where d: "a - i = Suc d" "a - Suc i = d" by (cases "a - i") auto
      with b tin show ?thesis by auto
    qed
  qed
qed

lemma apply_plan_exact_sets:
  assumes "apply_plan applied tools True = (False, a)"
  shows "set applied \<subseteq> set tools \<and> set (take a tools) \<subseteq> set applied"
proof -
  from assms have sub: "set applied \<subseteq> set tools"
    by (auto simp: apply_plan_def split: if_splits)
  with assms have "find_start applied (length tools) tools 0 (-1) (length tools) = (False, a)"
    by (auto simp: apply_plan_def split: if_splits)
  from find_start_found_prefix[OF this] have "a = 0 \<or> set (take a tools) \<subseteq> set applied" by auto
  then have "set (take a tools) \<subseteq> set applied" by auto
  with sub show ?thesis by simp
qed

lemma tools_phase_reset:
  "fst (apply_plan (applied_tools s) tools exact) \<Longrightarrow>
   tools_phase P tools exact s =
     apply_tools P tools (length (TOOLS (current (reset_environment P s))) + 1)
       (reset_environment P s)"
  by (cases "apply_plan (applied_tools s) tools exact") (simp add: tools_phase_def Let_def)

lemma tools_phase_append:
  "apply_plan (applied_tools s) tools exact = (False, a) \<Longrightarrow>
   tools_phase P tools exact s = apply_tools P (drop a tools) (length (TOOLS (current s)) + 1) s"
  by (simp add: tools_phase_def)

lemma tools_phase_exact:
  "set (applied_tools (tools_phase P tools True s)) = set tools"
proof (cases "apply_plan (applied_tools s) tools True")
  case (Pair reset a)
  show ?thesis
  proof (cases reset)
    case True
    with Pair have "fst (apply_plan (applied_tools s) tools True)" by simp
    from tools_phase_reset[OF this] show ?thesis
      by (simp add: reset_environment_def)
  next
    case False
    with Pair have p: "apply_plan (applied_tools s) tools True = (False, a)" by simp
    from apply_plan_exact_sets[OF p] have
      "set (applied_tools s) \<subseteq> set tools" "set (take a tools) \<subseteq> set (applied_tools s)" by auto
    moreover have "set tools = set (take a tools) \<union> set (drop a tools)"
      by (metis append_take_drop_id set_append)
    ultimately show ?thesis
      unfolding tools_phase_append[OF p]
      using set_drop_subset[of a tools] by auto
  qed
qed


lemma find_start_unfound_mode:
  "0 < i \<Longrightarrow> find_start A n ts i (-1) 0 = (\<exists>t \<in> set ts. t \<in> set A, 0)"
proof (induction ts arbitrary: i)
  case Nil
  then show ?case by simp
next
  case (Cons t ts)
  show ?case
  proof (cases "index_of A t")
    case None
    then have "t \<notin> set A" by (simp add: index_of_None)
    with None Cons.IH[of "Suc i"] show ?thesis by simp
  next
    case (Some actual)
    then have "t \<in> set A" using index_of_None[of A t] by auto
    with Some Cons.prems show ?thesis by (simp add: Let_def)
  qed
qed

lemma find_start_found_mode:
  "0 < i \<Longrightarrow> a \<noteq> n \<Longrightarrow>
   find_start A n ts i (int (length A)) a = (\<exists>t \<in> set ts. t \<in> set A, a)"
proof (induction ts arbitrary: i)
  case Nil
  then show ?case by simp
next
  case (Cons t ts)
  show ?case
  proof (cases "index_of A t")
    case None
    then have "t \<notin> set A" by (simp add: index_of_None)
    with None Cons.IH[of "Suc i"] Cons.prems show ?thesis by simp
  next
    case (Some actual)
    then have "t \<in> set A" using index_of_None[of A t] by auto
    moreover from index_of_Some[OF Some] have "actual < length A" by simp
    ultimately show ?thesis using Some Cons.prems by (simp add: Let_def)
  qed
qed

lemma run_at_Nil [simp]: "run_at A [] k"
  by (simp add: run_at_def)

lemma run_at_Cons: "run_at A (t # pre) k = (index_of A t = Some k \<and> run_at A pre (Suc k))"
  by (simp add: run_at_def All_less_Suc2)

lemma find_start_match_mode:
  "0 < i \<Longrightarrow> n = i + length ts \<Longrightarrow> e \<le> length A \<Longrightarrow>
   find_start A n ts i (int e) n = (r, a) \<Longrightarrow>
   r = (\<not> (run_at A (takeWhile (\<lambda>t. t \<in> set A) ts) e \<and>
            (dropWhile (\<lambda>t. t \<in> set A) ts \<noteq> [] \<longrightarrow>
               e + length (takeWhile (\<lambda>t. t \<in> set A) ts) = length A) \<and>
            (\<forall>t \<in> set (dropWhile (\<lambda>t. t \<in> set A) ts). t \<notin> set A))) \<and>
   (\<not> r \<longrightarrow> drop (a - i) ts = dropWhile (\<lambda>t. t \<in> set A) ts \<and> i \<le> a)"
proof (induction ts arbitrary: i e)
  case Nil
  then show ?case by simp
next
  case (Cons t ts)
  show ?case
  proof (cases "index_of A t")
    case None
    then have nin: "t \<notin> set A" by (simp add: index_of_None)
    show ?thesis
    proof (cases "e = length A")
      case True
      have "find_start A n (t # ts) i (int e) n = find_start A n ts (Suc i) (int (length A)) i"
        using None True by simp
      also have "\<dots> = (\<exists>t \<in> set ts. t \<in> set A, i)"
        using Cons.prems(2) by (intro find_start_found_mode) auto
      finally have "r = (\<exists>t \<in> set ts. t \<in> set A)" "a = i" using Cons.prems(4) by auto
      with nin True show ?thesis by auto
    next
      case False
      with None Cons.prems(4) have "r" by (auto split: if_splits)
      with nin False show ?thesis by simp
    qed
  next
    case (Some actual)
    then have tin: "t \<in> set A" using index_of_None[of A t] by auto
    from index_of_Some[OF Some] have al: "actual < length A" by simp
    let ?pre = "takeWhile (\<lambda>t. t \<in> set A) ts"
    let ?post = "dropWhile (\<lambda>t. t \<in> set A) ts"
    have tw: "takeWhile (\<lambda>t. t \<in> set A) (t # ts) = t # ?pre"
      "dropWhile (\<lambda>t. t \<in> set A) (t # ts) = ?post" using tin by simp_all
    show ?thesis
    proof (cases "actual = e")
      case True
      with Some Cons.prems(1,4) have
        rec: "find_start A n ts (Suc i) (int (Suc e)) n = (r, a)"
        by (simp add: Let_def add.commute)
      have se: "Suc e \<le> length A" using al True by simp
      have n': "n = Suc i + length ts" using Cons.prems(2) by simp
      note ih0 = Cons.IH[OF zero_less_Suc n' se rec]
      have req: "r = (\<not> (run_at A ?pre (Suc e) \<and> (?post \<noteq> [] \<longrightarrow> Suc e + length ?pre = length A) \<and>
                 (\<forall>t \<in> set ?post. t \<notin> set A)))"
        using ih0 by (rule conjunct1)
      have d0: "\<not> r \<longrightarrow> drop (a - Suc i) ts = ?post \<and> Suc i \<le> a"
        using ih0 by (rule conjunct2)
      have d: "\<not> r \<longrightarrow> drop (a - i) (t # ts) = ?post \<and> i \<le> a"
      proof
        assume "\<not> r"
        with d0 have x: "drop (a - Suc i) ts = ?post" "Suc i \<le> a" by simp_all
        then obtain k where "a - i = Suc k" "a - Suc i = k" by (cases "a - i") auto
        with x show "drop (a - i) (t # ts) = ?post \<and> i \<le> a" by simp
      qed
      have e1: "run_at A (t # ?pre) e = run_at A ?pre (Suc e)"
        using Some True by (simp add: run_at_Cons)
      have e2: "e + length (t # ?pre) = Suc e + length ?pre" by simp
      have g1: "r = (\<not> (run_at A (t # ?pre) e \<and>
            (?post \<noteq> [] \<longrightarrow> e + length (t # ?pre) = length A) \<and>
            (\<forall>t \<in> set ?post. t \<notin> set A)))"
        unfolding e1 e2 by (rule req)
      show ?thesis unfolding tw by (rule conjI[OF g1 d])
    next
      case False
      have "find_start A n (t # ts) i (int e) n = (True, n)"
        using Some False Cons.prems(1) by (simp add: Let_def)
      with Cons.prems(4) have rt: "r" by simp
      have nr: "\<not> run_at A (t # ?pre) e" using Some False by (simp add: run_at_Cons)
      show ?thesis unfolding tw using rt nr by blast
    qed
  qed
qed

lemma apply_plan_char:
  assumes "apply_plan A T exact = (r, a)"
  shows "r = ((exact \<and> (\<exists>t \<in> set A. t \<notin> set T)) \<or>
              (\<exists>t \<in> set (dropWhile (\<lambda>t. t \<in> set A) T). t \<in> set A) \<or>
              (takeWhile (\<lambda>t. t \<in> set A) T \<noteq> [] \<and>
               \<not> (\<exists>k. run_at A (takeWhile (\<lambda>t. t \<in> set A) T) k \<and>
                       (dropWhile (\<lambda>t. t \<in> set A) T \<noteq> [] \<or> length T = 1 \<longrightarrow>
                          k + length (takeWhile (\<lambda>t. t \<in> set A) T) = length A)))) \<and>
         (\<not> r \<longrightarrow> drop a T = dropWhile (\<lambda>t. t \<in> set A) T)"
proof (cases "exact \<and> (\<exists>t \<in> set A. t \<notin> set T)")
  case True
  with assms show ?thesis by (auto simp: apply_plan_def)
next
  case ne: False
  with assms have fs: "find_start A (length T) T 0 (-1) (length T) = (r, a)"
    by (auto simp: apply_plan_def split: if_splits)
  show ?thesis
  proof (cases T)
    case Nil
    with fs ne show ?thesis by auto
  next
    case (Cons t ts)
    show ?thesis
    proof (cases "index_of A t")
      case None
      then have nin: "t \<notin> set A" by (simp add: index_of_None)
      have "find_start A (length T) T 0 (-1) (length T) = find_start A (length T) ts (Suc 0) (-1) 0"
        using None Cons by simp
      also have "\<dots> = (\<exists>t \<in> set ts. t \<in> set A, 0)"
        by (intro find_start_unfound_mode) simp
      finally have "r = (\<exists>t \<in> set ts. t \<in> set A)" "a = 0" using fs by auto
      with nin Cons ne show ?thesis by auto
    next
      case (Some k)
      then have tin: "t \<in> set A" using index_of_None[of A t] by auto
      from index_of_Some[OF Some] have kl: "k < length A" by simp
      let ?pre = "takeWhile (\<lambda>t. t \<in> set A) ts"
      let ?post = "dropWhile (\<lambda>t. t \<in> set A) ts"
      have tw: "takeWhile (\<lambda>t. t \<in> set A) T = t # ?pre"
        "dropWhile (\<lambda>t. t \<in> set A) T = ?post" using tin Cons by simp_all
      have ex: "(\<exists>k'. run_at A (t # ?pre) k' \<and> Q k') = (run_at A ?pre (Suc k) \<and> Q k)" for Q
        using Some by (auto simp: run_at_Cons)
      show ?thesis
      proof (cases "length T > 1 \<or> int k = int (length A) - 1")
        case True
        with Some Cons fs have
          rec: "find_start A (length T) ts (Suc 0) (int (Suc k)) (length T) = (r, a)"
          by (simp add: Let_def add.commute)
        have sk: "Suc k \<le> length A" using kl by simp
        have n': "length T = Suc 0 + length ts" using Cons by simp
        note m0 = find_start_match_mode[OF zero_less_Suc n' sk rec]
        have m1: "r = (\<not> (run_at A ?pre (Suc k) \<and> (?post \<noteq> [] \<longrightarrow> Suc k + length ?pre = length A) \<and>
                 (\<forall>t \<in> set ?post. t \<notin> set A)))"
          using m0 by (rule conjunct1)
        have m2: "\<not> r \<longrightarrow> drop (a - Suc 0) ts = ?post \<and> Suc 0 \<le> a"
          using m0 by (rule conjunct2)
        have d: "\<not> r \<longrightarrow> drop a T = ?post"
        proof
          assume "\<not> r"
          with m2 have x: "drop (a - Suc 0) ts = ?post" "Suc 0 \<le> a" by simp_all
          then obtain j where "a = Suc j" by (cases a) auto
          with x Cons show "drop a T = ?post" by simp
        qed
        have single: "length T = 1 \<longrightarrow> Suc k = length A \<and> ts = []"
          using True Cons by auto
        have c: "(?post \<noteq> [] \<or> length T = 1 \<longrightarrow> k + length (t # ?pre) = length A)
                = (?post \<noteq> [] \<longrightarrow> Suc k + length ?pre = length A)"
          using single by auto
        have g1: "r = ((exact \<and> (\<exists>t \<in> set A. t \<notin> set T)) \<or> (\<exists>t \<in> set ?post. t \<in> set A) \<or>
                   (t # ?pre \<noteq> [] \<and> \<not> (run_at A ?pre (Suc k) \<and>
                       (?post \<noteq> [] \<or> length T = 1 \<longrightarrow> k + length (t # ?pre) = length A))))"
          unfolding c m1 using ne by blast
        show ?thesis unfolding tw ex by (rule conjI[OF g1 d])
      next
        case False
        then have one: "length T = 1" "Suc k \<noteq> length A" using Cons kl by auto
        with Cons have ts: "ts = []" by simp
        have "find_start A (length T) T 0 (-1) (length T) = (True, length T)"
          using Some False Cons by (simp add: Let_def)
        with fs have rt: "r" by simp
        have nr: "\<not> (run_at A ?pre (Suc k) \<and>
                       (?post \<noteq> [] \<or> length T = 1 \<longrightarrow> k + length (t # ?pre) = length A))"
          using one ts by simp
        show ?thesis unfolding tw ex using rt nr by blast
      qed
    qed
  qed
qed

lemma run_at_distinct:
  assumes "distinct A" and "pre \<noteq> []"
  shows "run_at A pre k = (take (length pre) (drop k A) = pre)"
proof
  assume r: "run_at A pre k"
  have b: "k + j < length A \<and> A ! (k + j) = pre ! j" if "j < length pre" for j
    using r that index_of_Some[of A "pre ! j" "k + j"] by (simp add: run_at_def)
  from assms(2) have "0 < length pre" by simp
  have "k + (length pre - 1) < length A" using b[of "length pre - 1"] assms(2) by simp
  then have len: "k + length pre \<le> length A" using assms(2) by (cases pre) auto
  show "take (length pre) (drop k A) = pre"
  proof (rule nth_equalityI)
    show "length (take (length pre) (drop k A)) = length pre" using len by simp
  next
    fix j assume "j < length (take (length pre) (drop k A))"
    then have j: "j < length pre" by simp
    with b[OF j] len show "take (length pre) (drop k A) ! j = pre ! j" by simp
  qed
next
  assume t: "take (length pre) (drop k A) = pre"
  then have "length (take (length pre) (drop k A)) = length pre" by simp
  then have len: "k + length pre \<le> length A" using assms(2) by (cases pre) (auto simp: min_def split: if_splits)
  show "run_at A pre k"
    unfolding run_at_def
  proof (intro allI impI)
    fix j assume j: "j < length pre"
    have "pre ! j = take (length pre) (drop k A) ! j" using t by simp
    also have "\<dots> = A ! (k + j)" using j len by simp
    finally have "pre ! j = A ! (k + j)" .
    moreover have "index_of A (A ! (k + j)) = Some (k + j)"
      using assms(1) j len by (intro index_of_distinct) auto
    ultimately show "index_of A (pre ! j) = Some (k + j)" by simp
  qed
qed

lemma takeWhile_none_applied:
  "set T \<inter> set A = {} \<Longrightarrow>
   takeWhile (\<lambda>t. t \<in> set A) T = [] \<and> dropWhile (\<lambda>t. t \<in> set A) T = T"
  by (cases T) auto

lemma tools_phase_plan:
  assumes "apply_plan (applied_tools s) tools exact = (r, a)"
  shows "tools_phase P tools exact s =
     (if r then apply_tools P tools (length (TOOLS (current (reset_environment P s))) + 1)
                 (reset_environment P s)
      else apply_tools P (drop a tools) (length (TOOLS (current s)) + 1) s)"
  using assms by (simp add: tools_phase_def Let_def)

text \<open>
  Claim C4, as amended. Let \<open>pre\<close> be the longest leading block of the desired sequence
  that consists of applied tools, and \<open>post\<close> the rest. When neither the applied nor the
  desired sequence has duplicates, the environment is reset from the base environment
  and the whole desired sequence applied exactly when the application is exact and an
  applied tool is absent from the desired sequence, or \<open>post\<close> holds an applied tool, or
  \<open>pre\<close> is not empty and is not a block of consecutive elements of the applied sequence
  that reaches its end if \<open>post\<close> is not empty or the desired sequence is a single tool;
  otherwise exactly \<open>post\<close> is applied, to the current environment. For all sequences:
  when the applied tools have no duplicates and the desired sequence is the applied
  sequence followed by tools that are not applied, only these are applied, to the
  current environment; when the application is exact and an applied tool is absent, or
  two tools of the desired sequence are applied in the opposite order, the environment
  is reset and the whole desired sequence applied; and an application that is not exact
  of tools none of which is applied applies them to the current environment, without a
  reset, although every applied tool is absent from the desired sequence.
\<close>

theorem apply_env_append_or_reset:
  "(distinct (applied_tools s) \<and> distinct tools \<longrightarrow>
      apply_env P s tools exact req_checks opt_checks =
        checks_phase P req_checks opt_checks
          (let A = applied_tools s;
               pre = takeWhile (\<lambda>t. t \<in> set A) tools;
               post = dropWhile (\<lambda>t. t \<in> set A) tools
           in if (exact \<and> (\<exists>t \<in> set A. t \<notin> set tools)) \<or>
                 (\<exists>t \<in> set post. t \<in> set A) \<or>
                 (pre \<noteq> [] \<and>
                  \<not> (\<exists>k. take (length pre) (drop k A) = pre \<and>
                         (post \<noteq> [] \<or> length tools = 1 \<longrightarrow> k + length pre = length A)))
              then apply_tools P tools (length (TOOLS (current (reset_environment P s))) + 1)
                     (reset_environment P s)
              else apply_tools P post (length (TOOLS (current s)) + 1) s)) \<and>
   (distinct (applied_tools s) \<and> set suffix \<inter> set (applied_tools s) = {} \<longrightarrow>
      apply_env P s (applied_tools s @ suffix) exact req_checks opt_checks =
        checks_phase P req_checks opt_checks
          (apply_tools P suffix (length (TOOLS (current s)) + 1) s)) \<and>
   ((exact \<and> (\<exists>t \<in> set (applied_tools s). t \<notin> set tools)) \<or>
    (\<exists>i j p q. i < j \<and> j < length tools \<and>
        index_of (applied_tools s) (tools ! i) = Some p \<and>
        index_of (applied_tools s) (tools ! j) = Some q \<and> q < p) \<longrightarrow>
      apply_env P s tools exact req_checks opt_checks =
        checks_phase P req_checks opt_checks
          (apply_tools P tools (length (TOOLS (current (reset_environment P s))) + 1)
             (reset_environment P s))) \<and>
   (\<not> exact \<and> set tools \<inter> set (applied_tools s) = {} \<longrightarrow>
      apply_env P s tools exact req_checks opt_checks =
        checks_phase P req_checks opt_checks
          (apply_tools P tools (length (TOOLS (current s)) + 1) s))"
proof (intro conjI impI)
  let ?A = "applied_tools s"
  let ?pre = "takeWhile (\<lambda>t. t \<in> set ?A) tools"
  let ?post = "dropWhile (\<lambda>t. t \<in> set ?A) tools"
  assume d: "distinct ?A \<and> distinct tools"
  obtain r a where pl: "apply_plan ?A tools exact = (r, a)"
    by (cases "apply_plan ?A tools exact")
  note ch = apply_plan_char[OF pl]
  have conv: "(?pre \<noteq> [] \<and> \<not> (\<exists>k. run_at ?A ?pre k \<and>
                 (?post \<noteq> [] \<or> length tools = 1 \<longrightarrow> k + length ?pre = length ?A)))
            = (?pre \<noteq> [] \<and> \<not> (\<exists>k. take (length ?pre) (drop k ?A) = ?pre \<and>
                 (?post \<noteq> [] \<or> length tools = 1 \<longrightarrow> k + length ?pre = length ?A)))"
  proof (cases "?pre = []")
    case True
    then show ?thesis by simp
  next
    case False
    from d have "distinct ?A" by simp
    from run_at_distinct[OF this False] show ?thesis by simp
  qed
  have r: "r = ((exact \<and> (\<exists>t \<in> set ?A. t \<notin> set tools)) \<or>
                 (\<exists>t \<in> set ?post. t \<in> set ?A) \<or>
                 (?pre \<noteq> [] \<and>
                  \<not> (\<exists>k. take (length ?pre) (drop k ?A) = ?pre \<and>
                         (?post \<noteq> [] \<or> length tools = 1 \<longrightarrow> k + length ?pre = length ?A))))"
    using ch[THEN conjunct1] unfolding conv .
  have dr: "\<not> r \<Longrightarrow> drop a tools = ?post" using ch[THEN conjunct2] by simp
  show "apply_env P s tools exact req_checks opt_checks =
        checks_phase P req_checks opt_checks
          (let A = applied_tools s;
               pre = takeWhile (\<lambda>t. t \<in> set A) tools;
               post = dropWhile (\<lambda>t. t \<in> set A) tools
           in if (exact \<and> (\<exists>t \<in> set A. t \<notin> set tools)) \<or>
                 (\<exists>t \<in> set post. t \<in> set A) \<or>
                 (pre \<noteq> [] \<and>
                  \<not> (\<exists>k. take (length pre) (drop k A) = pre \<and>
                         (post \<noteq> [] \<or> length tools = 1 \<longrightarrow> k + length pre = length A)))
              then apply_tools P tools (length (TOOLS (current (reset_environment P s))) + 1)
                     (reset_environment P s)
              else apply_tools P post (length (TOOLS (current s)) + 1) s)"
    unfolding Let_def r[symmetric] apply_env_def tools_phase_plan[OF pl]
    using dr by (cases r) simp_all
next
  assume "distinct (applied_tools s) \<and> set suffix \<inter> set (applied_tools s) = {}"
  then have "apply_plan (applied_tools s) (applied_tools s @ suffix) exact
               = (False, length (applied_tools s))"
    by (intro apply_plan_extension) auto
  from tools_phase_append[OF this, of P]
  show "apply_env P s (applied_tools s @ suffix) exact req_checks opt_checks =
        checks_phase P req_checks opt_checks
          (apply_tools P suffix (length (TOOLS (current s)) + 1) s)"
    by (simp add: apply_env_def)
next
  assume a: "(exact \<and> (\<exists>t \<in> set (applied_tools s). t \<notin> set tools)) \<or>
    (\<exists>i j p q. i < j \<and> j < length tools \<and>
        index_of (applied_tools s) (tools ! i) = Some p \<and>
        index_of (applied_tools s) (tools ! j) = Some q \<and> q < p)"
  have "fst (apply_plan (applied_tools s) tools exact)"
  proof (cases "exact \<and> (\<exists>t \<in> set (applied_tools s). t \<notin> set tools)")
    case True
    then show ?thesis by (simp add: apply_plan_def)
  next
    case False
    with a obtain i j p q where "i < j" "j < length tools"
        "index_of (applied_tools s) (tools ! i) = Some p"
        "index_of (applied_tools s) (tools ! j) = Some q" "q \<le> p" by fastforce
    then show ?thesis by (rule apply_plan_order)
  qed
  from tools_phase_reset[OF this, of P]
  show "apply_env P s tools exact req_checks opt_checks =
        checks_phase P req_checks opt_checks
          (apply_tools P tools (length (TOOLS (current (reset_environment P s))) + 1)
             (reset_environment P s))"
    by (simp add: apply_env_def)
next
  assume a: "\<not> exact \<and> set tools \<inter> set (applied_tools s) = {}"
  obtain r a' where pl: "apply_plan (applied_tools s) tools exact = (r, a')"
    by (cases "apply_plan (applied_tools s) tools exact")
  from a have tw: "takeWhile (\<lambda>t. t \<in> set (applied_tools s)) tools = []"
    "dropWhile (\<lambda>t. t \<in> set (applied_tools s)) tools = tools"
    using takeWhile_none_applied[of tools "applied_tools s"] by simp_all
  from apply_plan_char[OF pl, unfolded tw] a have "\<not> r" "drop a' tools = tools" by auto
  with tools_phase_plan[OF pl, of P]
  show "apply_env P s tools exact req_checks opt_checks =
        checks_phase P req_checks opt_checks
          (apply_tools P tools (length (TOOLS (current s)) + 1) s)"
    by (simp add: apply_env_def)
qed

text \<open>
  Claim C4 as stated fails. In an application that is not exact, \<^verbatim>\<open>gnu-ld\<close> is
  applied and absent from the desired sequence, and the environment is not reset:
  \<^verbatim>\<open>gcc\<close> is applied on top, and \<^verbatim>\<open>gnu-ld\<close> stays applied.
\<close>

theorem apply_env_append_or_reset_counterexample:
  "apply_env demo_prims
     (demo_session\<lparr>current := demo_base\<lparr>TOOLS := [''gnu-ld'', ''llvm-ld'']\<rparr>,
                    applied_tools := [''gnu-ld'', ''llvm-ld'']\<rparr>)
     [''llvm-ld'', ''gcc''] False None None =
   Inr ([], demo_session\<lparr>current := demo_base\<lparr>TOOLS := [''gnu-ld'', ''llvm-ld'', ''gcc'']\<rparr>,
                          applied_tools := [''gnu-ld'', ''llvm-ld'', ''gcc'']\<rparr>)"
  by (simp add: apply_env_def tools_phase_def apply_plan_def checks_phase_def checks_of_def
      reset_environment_def set_vars_opt_def
      demo_session_def demo_prims_def demo_base_def Let_def)

theorem apply_env_append_or_reset_witness:
  "apply_env demo_prims (demo_session\<lparr>applied_tools := [''gnu-ld'', ''llvm-ld'']\<rparr>)
       [''llvm-ld'', ''gcc''] False None None =
     checks_phase demo_prims None None
       (apply_tools demo_prims [''gcc'']
          (length (TOOLS (current (demo_session\<lparr>applied_tools := [''gnu-ld'', ''llvm-ld'']\<rparr>))) + 1)
          (demo_session\<lparr>applied_tools := [''gnu-ld'', ''llvm-ld'']\<rparr>)) \<and>
   apply_env demo_prims (demo_session\<lparr>applied_tools := [''gnu-ld'', ''llvm-ld'', ''gcc'']\<rparr>)
       [''gnu-ld'', ''gcc''] False None None =
     checks_phase demo_prims None None
       (apply_tools demo_prims [''gnu-ld'', ''gcc'']
          (length (TOOLS (current (reset_environment demo_prims
                     (demo_session\<lparr>applied_tools := [''gnu-ld'', ''llvm-ld'', ''gcc'']\<rparr>)))) + 1)
          (reset_environment demo_prims
             (demo_session\<lparr>applied_tools := [''gnu-ld'', ''llvm-ld'', ''gcc'']\<rparr>))) \<and>
   apply_env demo_prims (demo_session\<lparr>applied_tools := [''gnu-ld'']\<rparr>)
       ([''gnu-ld''] @ [''gcc'']) False None None =
     checks_phase demo_prims None None
       (apply_tools demo_prims [''gcc'']
          (length (TOOLS (current (demo_session\<lparr>applied_tools := [''gnu-ld'']\<rparr>))) + 1)
          (demo_session\<lparr>applied_tools := [''gnu-ld'']\<rparr>)) \<and>
   apply_env demo_prims (demo_session\<lparr>applied_tools := [''gnu-ld'']\<rparr>) [''gcc''] True None None =
     checks_phase demo_prims None None
       (apply_tools demo_prims [''gcc'']
          (length (TOOLS (current (reset_environment demo_prims
                     (demo_session\<lparr>applied_tools := [''gnu-ld'']\<rparr>)))) + 1)
          (reset_environment demo_prims (demo_session\<lparr>applied_tools := [''gnu-ld'']\<rparr>))) \<and>
   apply_env demo_prims (demo_session\<lparr>applied_tools := [''gnu-ld'', ''llvm-ld'']\<rparr>)
       [''llvm-ld'', ''gnu-ld''] False None None =
     checks_phase demo_prims None None
       (apply_tools demo_prims [''llvm-ld'', ''gnu-ld'']
          (length (TOOLS (current (reset_environment demo_prims
                     (demo_session\<lparr>applied_tools := [''gnu-ld'', ''llvm-ld'']\<rparr>)))) + 1)
          (reset_environment demo_prims (demo_session\<lparr>applied_tools := [''gnu-ld'', ''llvm-ld'']\<rparr>))) \<and>
   apply_env demo_prims (demo_session\<lparr>applied_tools := [''gnu-ld'']\<rparr>) [''gcc''] False None None =
     checks_phase demo_prims None None
       (apply_tools demo_prims [''gcc'']
          (length (TOOLS (current (demo_session\<lparr>applied_tools := [''gnu-ld'']\<rparr>))) + 1)
          (demo_session\<lparr>applied_tools := [''gnu-ld'']\<rparr>))"
proof -
  let ?s1 = "demo_session\<lparr>applied_tools := [''gnu-ld'']\<rparr>"
  let ?s2 = "demo_session\<lparr>applied_tools := [''gnu-ld'', ''llvm-ld'']\<rparr>"
  let ?s3 = "demo_session\<lparr>applied_tools := [''gnu-ld'', ''llvm-ld'', ''gcc'']\<rparr>"
  have a1: "applied_tools ?s1 = [''gnu-ld'']" and a2: "applied_tools ?s2 = [''gnu-ld'', ''llvm-ld'']"
    and a3: "applied_tools ?s3 = [''gnu-ld'', ''llvm-ld'', ''gcc'']"
    by simp_all
  have nk: "take (Suc (Suc 0)) (drop k [''gnu-ld'', ''llvm-ld'', ''gcc'']) \<noteq> [''gnu-ld'', ''gcc'']"
    for k
  proof -
    have "k = 0 \<or> k = 1 \<or> k = 2 \<or> 3 \<le> k" by arith
    then show ?thesis by auto
  qed
  have yk: "\<exists>k. take (length [''llvm-ld'']) (drop k [''gnu-ld'', ''llvm-ld'']) = [''llvm-ld''] \<and>
             ([''gcc''] \<noteq> [] \<or> length [''llvm-ld'', ''gcc''] = 1
                \<longrightarrow> k + length [''llvm-ld''] = length [''gnu-ld'', ''llvm-ld''])"
    by (rule exI[of _ 1]) simp
  have c0: "((False \<and> (\<exists>t \<in> set [''gnu-ld'', ''llvm-ld'']. t \<notin> set [''llvm-ld'', ''gcc''])) \<or>
             (\<exists>t \<in> set [''gcc'']. t \<in> set [''gnu-ld'', ''llvm-ld'']) \<or>
             ([''llvm-ld''] \<noteq> [] \<and>
              \<not> (\<exists>k. take (length [''llvm-ld'']) (drop k [''gnu-ld'', ''llvm-ld'']) = [''llvm-ld''] \<and>
                     ([''gcc''] \<noteq> [] \<or> length [''llvm-ld'', ''gcc''] = 1
                        \<longrightarrow> k + length [''llvm-ld''] = length [''gnu-ld'', ''llvm-ld''])))) = False"
    using yk by simp
  have h0: "distinct [''gnu-ld'', ''llvm-ld''] \<and> distinct [''llvm-ld'', ''gcc'']" by simp
  have tw0: "takeWhile (\<lambda>t. t \<in> set [''gnu-ld'', ''llvm-ld'']) [''llvm-ld'', ''gcc''] = [''llvm-ld'']"
    "dropWhile (\<lambda>t. t \<in> set [''gnu-ld'', ''llvm-ld'']) [''llvm-ld'', ''gcc''] = [''gcc'']"
    by simp_all
  note t0 = apply_env_append_or_reset[where s="?s2" and P=demo_prims
        and exact=False and req_checks=None and opt_checks=None
        and tools="[''llvm-ld'', ''gcc'']",
      unfolded a2, THEN conjunct1, rule_format, OF h0, unfolded Let_def tw0 c0 if_False]
  have h0': "distinct [''gnu-ld'', ''llvm-ld'', ''gcc''] \<and> distinct [''gnu-ld'', ''gcc'']" by simp
  have tw0': "takeWhile (\<lambda>t. t \<in> set [''gnu-ld'', ''llvm-ld'', ''gcc'']) [''gnu-ld'', ''gcc'']
                = [''gnu-ld'', ''gcc'']"
    "dropWhile (\<lambda>t. t \<in> set [''gnu-ld'', ''llvm-ld'', ''gcc'']) [''gnu-ld'', ''gcc''] = []"
    by simp_all
  have c0': "((False \<and> (\<exists>t \<in> set [''gnu-ld'', ''llvm-ld'', ''gcc'']. t \<notin> set [''gnu-ld'', ''gcc''])) \<or>
             (\<exists>t \<in> set []. t \<in> set [''gnu-ld'', ''llvm-ld'', ''gcc'']) \<or>
             ([''gnu-ld'', ''gcc''] \<noteq> [] \<and>
              \<not> (\<exists>k. take (length [''gnu-ld'', ''gcc'']) (drop k [''gnu-ld'', ''llvm-ld'', ''gcc''])
                        = [''gnu-ld'', ''gcc''] \<and>
                     ([] \<noteq> ([]::string list) \<or> length [''gnu-ld'', ''gcc''] = 1
                        \<longrightarrow> k + length [''gnu-ld'', ''gcc''] = length [''gnu-ld'', ''llvm-ld'', ''gcc''])))) = True"
    using nk by simp
  note t0' = apply_env_append_or_reset[where s="?s3" and P=demo_prims
        and exact=False and req_checks=None and opt_checks=None
        and tools="[''gnu-ld'', ''gcc'']",
      unfolded a3, THEN conjunct1, rule_format, OF h0', unfolded Let_def tw0' c0' if_True]
  have h1: "distinct [''gnu-ld''] \<and> set [''gcc''] \<inter> set [''gnu-ld''] = {}" by simp
  have h2: "\<exists>t \<in> set [''gnu-ld'']. t \<notin> set [''gcc'']" by simp
  have h3': "\<exists>i j p q. i < j \<and> j < length [''llvm-ld'', ''gnu-ld''] \<and>
        index_of [''gnu-ld'', ''llvm-ld''] ([''llvm-ld'', ''gnu-ld''] ! i) = Some p \<and>
        index_of [''gnu-ld'', ''llvm-ld''] ([''llvm-ld'', ''gnu-ld''] ! j) = Some q \<and> q < p"
    by (rule exI[of _ 0], rule exI[of _ 1], rule exI[of _ 1], rule exI[of _ 0]) simp
  have h4: "\<not> False \<and> set [''gcc''] \<inter> set [''gnu-ld''] = {}" by simp
  note t1 = apply_env_append_or_reset[where s="?s1" and suffix="[''gcc'']" and P=demo_prims
        and exact=False and req_checks=None and opt_checks=None and tools="[''gcc'']",
      unfolded a1, THEN conjunct2, THEN conjunct1, rule_format, OF h1]
  note t2 = apply_env_append_or_reset[where s="?s1" and suffix="[''gcc'']" and P=demo_prims
        and exact=True and req_checks=None and opt_checks=None and tools="[''gcc'']",
      unfolded a1, THEN conjunct2, THEN conjunct2, THEN conjunct1, rule_format,
      OF disjI1, OF conjI, OF TrueI h2]
  note t3 = apply_env_append_or_reset[where s="?s2" and suffix="[]" and P=demo_prims
        and exact=False and req_checks=None and opt_checks=None
        and tools="[''llvm-ld'', ''gnu-ld'']",
      unfolded a2, THEN conjunct2, THEN conjunct2, THEN conjunct1, rule_format,
      OF disjI2, OF h3']
  note t4 = apply_env_append_or_reset[where s="?s1" and suffix="[]" and P=demo_prims
        and exact=False and req_checks=None and opt_checks=None and tools="[''gcc'']",
      unfolded a1, THEN conjunct2, THEN conjunct2, THEN conjunct2, rule_format, OF h4]
  from t0 t0' t1 t2 t3 t4 show ?thesis by (intro conjI)
qed


subsection \<open>\<^verbatim>\<open>Finalize\<close>\<close>

lemma final_tools_set:
  "set (final_tools h augs) = {t. t \<noteq> [] \<and> (\<exists>a \<in> set augs. Tool (h ! a) = Some t)}"
  by (induction augs) (auto split: option.splits)

lemma final_checks_set:
  "set (final_checks h augs) = (\<Union>a \<in> set augs. set (checks_of (Checks (Specification (h ! a)))))"
  by (induction augs) auto

lemma run_checks_frame:
  "run_checks P required cs s failed = Inr (s', failed') \<Longrightarrow>
   applied_tools s' = applied_tools s \<and> heap s' = heap s \<and> augments s' = augments s \<and>
   base s' = base s \<and> cache s' = cache s \<and> probes s' = probes s \<and> lookups s' = lookups s"
proof (induction cs arbitrary: s failed)
  case Nil
  then show ?case by simp
next
  case (Cons c cs)
  define s1 where "s1 = (if c \<in> set (applied_checks s) then s else s\<lparr>applied_checks := applied_checks s @ [c]\<rparr>)"
  show ?case
  proof (cases "c \<in> set (applied_checks s) \<and> \<not> required")
    case True
    with Cons.prems have "run_checks P required cs s failed = Inr (s', failed')"
      by (simp add: Let_def)
    from Cons.IH[OF this] show ?thesis .
  next
    case False
    obtain r e1 where r: "check_fn P c (current s1) = (r, e1)" by (cases "check_fn P c (current s1)")
    show ?thesis
    proof (cases r)
      case (Inl e)
      with Cons.prems False r show ?thesis by (auto simp: Let_def s1_def split: if_splits)
    next
      case (Inr result)
      with Cons.prems False r have
        "run_checks P required cs (s1\<lparr>current := e1, executed := executed s1 @ [(c, result)]\<rparr>)
            (if check_failed result then failed @ [c] else failed) = Inr (s', failed')"
        by (auto simp: Let_def s1_def split: if_splits)
      from Cons.IH[OF this] show ?thesis by (simp add: s1_def)
    qed
  qed
qed

lemma checks_phase_frame:
  assumes "checks_phase P req opt s = Inr (failed, s')"
  shows "applied_tools s' = applied_tools s \<and> heap s' = heap s \<and> augments s' = augments s \<and>
   base s' = base s \<and> cache s' = cache s \<and> probes s' = probes s \<and> lookups s' = lookups s"
proof -
  from assms obtain s1 f1 where
    a: "run_checks P True (checks_of req) s [] = Inr (s1, f1)" and
    b: "run_checks P False (checks_of opt) s1 f1 = Inr (s', failed)"
    by (auto simp: checks_phase_def split: sum.splits prod.splits)
  from run_checks_frame[OF a] run_checks_frame[OF b] show ?thesis by simp
qed

lemma tools_phase_frame:
  "heap (tools_phase P tools exact s) = heap s \<and> augments (tools_phase P tools exact s) = augments s"
  by (simp add: tools_phase_def reset_environment_def Let_def split: prod.splits)

lemma apply_env_frame:
  assumes "apply_env P s tools exact req opt = Inr (failed, s')"
  shows "heap s' = heap s \<and> augments s' = augments s \<and>
         applied_tools s' = applied_tools (tools_phase P tools exact s)"
  using checks_phase_frame[OF assms[unfolded apply_env_def]] tools_phase_frame[of P tools exact s]
  by simp

lemma TOOLS_set_vars [simp]: "TOOLS (set_vars kvs e) = TOOLS e"
  by (induction kvs e rule: set_vars.induct) simp_all

lemma TOOLS_set_vars_opt [simp]: "TOOLS (set_vars_opt d e) = TOOLS e"
  by (cases d) (simp_all add: set_vars_opt_def)

lemma apply_tools_TOOLS:
  assumes "\<forall>t env. \<exists>extra. TOOLS (tool_apply P t env) = TOOLS env @ t # extra"
  shows "n = length (TOOLS (current s)) + 1 \<Longrightarrow>
         TOOLS (current (apply_tools P ts n s)) = TOOLS (current s) @ ts"
proof (induction ts arbitrary: n s)
  case Nil
  then show ?case by simp
next
  case (Cons t ts)
  define e1 where "e1 = tool_apply P t (current s)"
  define e2 where "e2 = (if length (TOOLS e1) \<noteq> n then e1\<lparr>TOOLS := take n (TOOLS e1)\<rparr> else e1)"
  from assms obtain extra where ex: "TOOLS e1 = TOOLS (current s) @ t # extra"
    unfolding e1_def by blast
  have t2: "TOOLS e2 = TOOLS (current s) @ [t]"
    using ex Cons.prems by (cases extra) (simp_all add: e2_def)
  define s2 where "s2 = s\<lparr>applied_tools := applied_tools s @ [t], current := e2\<rparr>"
  have step: "apply_tools P (t # ts) n s = apply_tools P ts (n + 1) s2"
    by (simp add: Let_def s2_def e2_def e1_def)
  have "n + 1 = length (TOOLS (current s2)) + 1" using t2 Cons.prems by (simp add: s2_def)
  from Cons.IH[OF this] t2 show ?case unfolding step by (simp add: s2_def)
qed

lemma run_checks_TOOLS:
  assumes "\<forall>c env. TOOLS (snd (check_fn P c env)) = TOOLS env"
  shows "run_checks P required cs s failed = Inr (s', failed') \<Longrightarrow>
         TOOLS (current s') = TOOLS (current s)"
proof (induction cs arbitrary: s failed)
  case Nil
  then show ?case by simp
next
  case (Cons c cs)
  define s1 where "s1 = (if c \<in> set (applied_checks s) then s else s\<lparr>applied_checks := applied_checks s @ [c]\<rparr>)"
  have c1: "current s1 = current s" by (simp add: s1_def)
  show ?case
  proof (cases "c \<in> set (applied_checks s) \<and> \<not> required")
    case True
    with Cons.prems have "run_checks P required cs s failed = Inr (s', failed')"
      by (simp add: Let_def)
    from Cons.IH[OF this] show ?thesis .
  next
    case False
    obtain r e1 where r: "check_fn P c (current s1) = (r, e1)" by (cases "check_fn P c (current s1)")
    from assms[rule_format, of c "current s1"] r have t1: "TOOLS e1 = TOOLS (current s)"
      by (simp add: c1)
    show ?thesis
    proof (cases r)
      case (Inl e)
      with Cons.prems False r show ?thesis by (auto simp: Let_def s1_def split: if_splits)
    next
      case (Inr result)
      with Cons.prems False r have
        "run_checks P required cs (s1\<lparr>current := e1, executed := executed s1 @ [(c, result)]\<rparr>)
            (if check_failed result then failed @ [c] else failed) = Inr (s', failed')"
        by (auto simp: Let_def s1_def split: if_splits)
      from Cons.IH[OF this] t1 show ?thesis by simp
    qed
  qed
qed

lemma checks_phase_TOOLS:
  assumes "\<forall>c env. TOOLS (snd (check_fn P c env)) = TOOLS env"
    and "checks_phase P req opt s = Inr (failed, s')"
  shows "TOOLS (current s') = TOOLS (current s)"
proof -
  from assms(2) obtain s1 f1 where
    a: "run_checks P True (checks_of req) s [] = Inr (s1, f1)" and
    b: "run_checks P False (checks_of opt) s1 f1 = Inr (s', failed)"
    by (auto simp: checks_phase_def split: sum.splits prod.splits)
  from run_checks_TOOLS[OF assms(1) a] run_checks_TOOLS[OF assms(1) b] show ?thesis by simp
qed

lemma tools_phase_TOOLS:
  assumes "\<forall>t env. \<exists>extra. TOOLS (tool_apply P t env) = TOOLS env @ t # extra"
    and "fst (apply_plan (applied_tools s) tools exact) \<or>
         TOOLS (current s) = TOOLS (base s) @ applied_tools s"
  shows "TOOLS (current (tools_phase P tools exact s)) =
           TOOLS (base s) @ applied_tools (tools_phase P tools exact s)"
proof (cases "apply_plan (applied_tools s) tools exact")
  case (Pair r a)
  show ?thesis
  proof (cases r)
    case True
    with Pair have "fst (apply_plan (applied_tools s) tools exact)" by simp
    note tp = tools_phase_reset[OF this, of P]
    have "TOOLS (current (apply_tools P tools
             (length (TOOLS (current (reset_environment P s))) + 1) (reset_environment P s)))
          = TOOLS (current (reset_environment P s)) @ tools"
      by (rule apply_tools_TOOLS[OF assms(1)]) simp
    then show ?thesis unfolding tp by (simp add: reset_environment_def)
  next
    case False
    with Pair have p: "apply_plan (applied_tools s) tools exact = (False, a)" by simp
    with assms(2) have inv: "TOOLS (current s) = TOOLS (base s) @ applied_tools s" by simp
    note tp = tools_phase_append[OF p, of P]
    have "TOOLS (current (apply_tools P (drop a tools) (length (TOOLS (current s)) + 1) s))
          = TOOLS (current s) @ drop a tools"
      by (rule apply_tools_TOOLS[OF assms(1)]) simp
    then show ?thesis unfolding tp using inv by simp
  qed
qed

text \<open>
  Claim C5, as amended. \<^verbatim>\<open>Finalize\<close> performs an exact application: when it returns,
  the applied tools are, as a set, precisely the tools of the committed augments, and
  they are exactly the sequence of these tools when the application resets the
  environment; the committed augments are unchanged. The environment returned holds
  precisely these tools: provided that applying a tool appends its name to
  \<^verbatim>\<open>TOOLS\<close> (possibly followed by further names, which the application removes), that
  checks leave \<^verbatim>\<open>TOOLS\<close> alone, and that before the call the \<^verbatim>\<open>TOOLS\<close> of the current
  environment are those of the base environment followed by the applied tools (not
  needed when the application resets), the \<^verbatim>\<open>TOOLS\<close> of the environment returned are
  those of the base environment followed by the applied tools. \<^verbatim>\<open>Finalize\<close> executes,
  once each, those checks of the committed augments that are not remembered in
  \<^verbatim>\<open>__applied_checks\<close>: all of them when the application resets the environment, no
  remembered one otherwise.
\<close>

theorem Finalize_exact:
  assumes "Finalize P s = Inr (e, s')"
  shows "augments s' = augments s \<and> heap s' = heap s \<and> e = current s' \<and>
         set (applied_tools s') =
           {t. t \<noteq> [] \<and> (\<exists>a \<in> set (augments s). Tool (heap s ! a) = Some t)} \<and>
         (fst (apply_plan (applied_tools s) (final_tools (heap s) (augments s)) True) \<longrightarrow>
            applied_tools s' = final_tools (heap s) (augments s)) \<and>
         ((\<forall>t env. \<exists>extra. TOOLS (tool_apply P t env) = TOOLS env @ t # extra) \<and>
          (\<forall>c env. TOOLS (snd (check_fn P c env)) = TOOLS env) \<and>
          (fst (apply_plan (applied_tools s) (final_tools (heap s) (augments s)) True) \<or>
           TOOLS (current s) = TOOLS (base s) @ applied_tools s) \<longrightarrow>
            TOOLS e = TOOLS (base s) @ applied_tools s') \<and>
         (\<exists>new. executed s' = executed s @ new \<and> distinct (map fst new) \<and>
            fst ` set new =
              (\<Union>a \<in> set (augments s). set (checks_of (Checks (Specification (heap s ! a)))))
              - (if fst (apply_plan (applied_tools s) (final_tools (heap s) (augments s)) True)
                 then {} else set (applied_checks s)))"
proof -
  let ?tools = "final_tools (heap s) (augments s)"
  let ?checks = "final_checks (heap s) (augments s)"
  let ?t = "tools_phase P ?tools True s"
  from assms obtain failed s1 where
    ae: "apply_env P s ?tools True None (Some ?checks) = Inr (failed, s1)" and
    s': "s' = s1\<lparr>current := set_vars_opt (ENVPost P) (current s1)\<rparr>" and e: "e = current s'"
    by (auto simp: Finalize_def Let_def split: sum.splits)
  from apply_env_frame[OF ae] have fr: "heap s1 = heap s" "augments s1 = augments s"
    "applied_tools s1 = applied_tools ?t" by simp_all
  from apply_env_trace[OF ae] obtain new opt_run where n:
    "executed s1 = executed s @ new" "map fst new = checks_of None @ opt_run" "distinct opt_run"
    "set opt_run = set (checks_of (Some ?checks)) - set (checks_of None)
                           - set (applied_checks ?t)"
    by blast
  have m: "map fst new = opt_run" using n(2) by (simp add: checks_of_def)
  have "fst ` set new = set opt_run" using m by (metis set_map)
  with n(4) have img: "fst ` set new =
      (\<Union>a \<in> set (augments s). set (checks_of (Checks (Specification (heap s ! a)))))
      - (if fst (apply_plan (applied_tools s) ?tools True) then {} else set (applied_checks s))"
    by (simp add: checks_of_def final_checks_set tools_phase_applied_checks)
  have "set (applied_tools s') = set ?tools"
    using s' fr(3) by (simp add: tools_phase_exact)
  then have tl: "set (applied_tools s') =
           {t. t \<noteq> [] \<and> (\<exists>a \<in> set (augments s). Tool (heap s ! a) = Some t)}"
    by (simp add: final_tools_set)
  have rs: "fst (apply_plan (applied_tools s) ?tools True) \<longrightarrow> applied_tools s' = ?tools"
  proof
    assume "fst (apply_plan (applied_tools s) ?tools True)"
    from tools_phase_reset[OF this, of P] show "applied_tools s' = ?tools"
      using s' fr(3) by (simp add: reset_environment_def)
  qed
  have env: "(\<forall>t env. \<exists>extra. TOOLS (tool_apply P t env) = TOOLS env @ t # extra) \<and>
          (\<forall>c env. TOOLS (snd (check_fn P c env)) = TOOLS env) \<and>
          (fst (apply_plan (applied_tools s) ?tools True) \<or>
           TOOLS (current s) = TOOLS (base s) @ applied_tools s) \<longrightarrow>
            TOOLS e = TOOLS (base s) @ applied_tools s'"
  proof
    assume h: "(\<forall>t env. \<exists>extra. TOOLS (tool_apply P t env) = TOOLS env @ t # extra) \<and>
          (\<forall>c env. TOOLS (snd (check_fn P c env)) = TOOLS env) \<and>
          (fst (apply_plan (applied_tools s) ?tools True) \<or>
           TOOLS (current s) = TOOLS (base s) @ applied_tools s)"
    from tools_phase_TOOLS[OF h[THEN conjunct1] h[THEN conjunct2, THEN conjunct2]]
    have "TOOLS (current ?t) = TOOLS (base s) @ applied_tools ?t" .
    moreover from checks_phase_TOOLS[OF h[THEN conjunct2, THEN conjunct1] ae[unfolded apply_env_def]]
    have "TOOLS (current s1) = TOOLS (current ?t)" .
    ultimately show "TOOLS e = TOOLS (base s) @ applied_tools s'"
      using e s' fr(3) by simp
  qed
  have "executed s' = executed s @ new \<and> distinct (map fst new)"
    using s' n(1,3) m by simp
  with img have "\<exists>new. executed s' = executed s @ new \<and> distinct (map fst new) \<and>
            fst ` set new =
              (\<Union>a \<in> set (augments s). set (checks_of (Checks (Specification (heap s ! a)))))
              - (if fst (apply_plan (applied_tools s) ?tools True)
                 then {} else set (applied_checks s))" by blast
  with tl rs env e s' fr show ?thesis by simp
qed

text \<open>
  Claim C5 as stated fails: after an augment with check 1 is added, which executes the
  check once, \<^verbatim>\<open>Finalize\<close> returns without executing it again; the record of executed
  checks is the same before and after.
\<close>

theorem Finalize_counterexample:
  "AddAugment demo_prims demo_session (demo_spec 0 None (Some [1]) None) =
     Some (Inr (True,
       demo_session\<lparr>augments := [0],
         heap := [\<lparr>Specification = demo_spec 0 None (Some [1]) None, Tool = None,
                   Component = None, Valid = True\<rparr>],
         applied_checks := [1], executed := [(1, PyBool True)]\<rparr>)) \<and>
   Finalize demo_prims
       (demo_session\<lparr>augments := [0],
         heap := [\<lparr>Specification = demo_spec 0 None (Some [1]) None, Tool = None,
                   Component = None, Valid = True\<rparr>],
         applied_checks := [1], executed := [(1, PyBool True)]\<rparr>) =
     Inr (demo_base,
       demo_session\<lparr>augments := [0],
         heap := [\<lparr>Specification = demo_spec 0 None (Some [1]) None, Tool = None,
                   Component = None, Valid = True\<rparr>],
         applied_checks := [1], executed := [(1, PyBool True)]\<rparr>)"
  by (simp add: AddAugment_def Finalize_def validate_augments_def new_augment_def
      apply_env_def tools_phase_def apply_plan_def checks_phase_def checks_of_def
      is_dependency_def set_vars_opt_def check_failed_def
      demo_session_def demo_prims_def demo_spec_def demo_check_def Let_def)

theorem Finalize_exact_witness:
  "\<exists>e s'. Finalize demo_prims
       (demo_session\<lparr>augments := [0, 1], applied_tools := [''gnu-ld''],
          current := demo_base\<lparr>TOOLS := [''gnu-ld'']\<rparr>,
          heap := [\<lparr>Specification = demo_spec 0 (Some [''CC'']) (Some [1]) None,
                    Tool = Some ''gcc'', Component = Some ''CC'', Valid = True\<rparr>,
                   \<lparr>Specification = demo_spec 1 (Some [''LD'']) None None,
                    Tool = Some ''llvm-ld'', Component = Some ''LD'', Valid = True\<rparr>]\<rparr>) = Inr (e, s') \<and>
     set (applied_tools s') = {''gcc'', ''llvm-ld''} \<and>
     applied_tools s' = [''gcc'', ''llvm-ld''] \<and>
     TOOLS e = [''gcc'', ''llvm-ld''] \<and>
     (\<exists>new. executed s' = new \<and> distinct (map fst new) \<and> fst ` set new = {1})"
proof -
  let ?s = "demo_session\<lparr>augments := [0, 1], applied_tools := [''gnu-ld''],
          current := demo_base\<lparr>TOOLS := [''gnu-ld'']\<rparr>,
          heap := [\<lparr>Specification = demo_spec 0 (Some [''CC'']) (Some [1]) None,
                    Tool = Some ''gcc'', Component = Some ''CC'', Valid = True\<rparr>,
                   \<lparr>Specification = demo_spec 1 (Some [''LD'']) None None,
                    Tool = Some ''llvm-ld'', Component = Some ''LD'', Valid = True\<rparr>]\<rparr>"
  have "\<exists>e s'. Finalize demo_prims ?s = Inr (e, s')"
    by (simp add: Finalize_def apply_env_def tools_phase_def apply_plan_def checks_phase_def
        checks_of_def set_vars_opt_def check_failed_def reset_environment_def
        demo_session_def demo_prims_def demo_spec_def demo_check_def Let_def)
  then obtain e s' where h: "Finalize demo_prims ?s = Inr (e, s')" by blast
  have ft: "final_tools (heap ?s) (augments ?s) = [''gcc'', ''llvm-ld'']" by simp
  have plan: "fst (apply_plan (applied_tools ?s) [''gcc'', ''llvm-ld''] True)"
    by (simp add: apply_plan_def)
  have tl: "{t. t \<noteq> [] \<and> (\<exists>a \<in> set (augments ?s). Tool (heap ?s ! a) = Some t)}
              = {''gcc'', ''llvm-ld''}"
    by auto
  have ck: "(\<Union>a \<in> set (augments ?s). set (checks_of (Checks (Specification (heap ?s ! a)))))
              - {} = {1}"
    by (simp add: checks_of_def demo_spec_def)
  have ex: "executed ?s = []" by (simp add: demo_session_def)
  have b: "TOOLS (base ?s) = []" by (simp add: demo_session_def demo_base_def)
  have o1: "\<forall>t env. \<exists>extra. TOOLS (tool_apply demo_prims t env) = TOOLS env @ t # extra"
    by (simp add: demo_prims_def)
  have o2: "\<forall>c env. TOOLS (snd (check_fn demo_prims c env)) = TOOLS env"
    by (simp add: demo_prims_def demo_check_def)
  note F = Finalize_exact[OF h, unfolded ft Eq_TrueI[OF plan] if_True tl ck ex append_Nil b]
  have f4: "set (applied_tools s') = {''gcc'', ''llvm-ld''}"
    using F by (elim conjE)
  have f5: "applied_tools s' = [''gcc'', ''llvm-ld'']"
    using F by (elim conjE) simp
  have f6: "TOOLS e = applied_tools s'"
    using F o1 o2 by (elim conjE) simp
  have f7: "\<exists>new. executed s' = new \<and> distinct (map fst new) \<and> fst ` set new = {1}"
    using F by (elim conjE)
  show ?thesis
    by (rule exI[of _ e], rule exI[of _ s'])
       (rule conjI[OF h conjI[OF f4 conjI[OF f5 conjI[OF f6[unfolded f5] f7]]]])
qed


subsection \<open>A check that raises\<close>

lemma collect_checks:
  "fst (snd (collect h augs as tools checks depends_checks)) =
     checks @ concat (map (\<lambda>a. checks_of (Checks (Specification (h ! a))))
                       (filter (\<lambda>a. \<not> Valid (h ! a)) as))"
  by (induction as arbitrary: tools checks depends_checks) (simp_all add: Let_def)

lemma collect_depends_checks:
  "snd (snd (collect h augs as tools checks depends_checks)) =
     depends_checks @ concat (map (\<lambda>a. checks_of (Checks (Specification (h ! a))))
                       (filter (\<lambda>a. Valid (h ! a) \<and> is_dependency h augs (h ! a)) as))"
  by (induction as arbitrary: tools checks depends_checks) (simp_all add: Let_def)

lemma collect_required:
  "a \<in> set as \<Longrightarrow> \<not> Valid (h ! a) \<Longrightarrow> c \<in> set (checks_of (Checks (Specification (h ! a)))) \<Longrightarrow>
   c \<in> set (fst (snd (collect h augs as tools checks depends_checks)))"
  unfolding collect_checks by auto

lemma run_checks_raises:
  "c \<in> set cs \<Longrightarrow> required \<or> c \<notin> set (applied_checks s) \<Longrightarrow>
   \<forall>env. \<exists>e env'. check_fn P c env = (Inl e, env') \<Longrightarrow>
   \<exists>e s'. run_checks P required cs s failed = Inl (e, s')"
proof (induction cs arbitrary: s failed)
  case Nil
  then show ?case by simp
next
  case (Cons x xs)
  define s1 where "s1 = (if x \<in> set (applied_checks s) then s else s\<lparr>applied_checks := applied_checks s @ [x]\<rparr>)"
  obtain r e1 where r: "check_fn P x (current s1) = (r, e1)" by (cases "check_fn P x (current s1)")
  show ?case
  proof (cases "x \<in> set (applied_checks s) \<and> \<not> required")
    case True
    with Cons.prems(2) have "x \<noteq> c" by auto
    with Cons.prems(1) have "c \<in> set xs" by simp
    from Cons.IH[OF this Cons.prems(2,3), of failed] True show ?thesis by (simp add: Let_def)
  next
    case False
    show ?thesis
    proof (cases r)
      case (Inl e)
      with r False show ?thesis by (auto simp: Let_def s1_def)
    next
      case (Inr v)
      with r Cons.prems(3) have xc: "x \<noteq> c" by (metis Inl_Inr_False fst_conv)
      with Cons.prems(1) have cin: "c \<in> set xs" by simp
      let ?s2 = "s1\<lparr>current := e1, executed := executed s1 @ [(x, v)]\<rparr>"
      let ?f2 = "if check_failed v then failed @ [x] else failed"
      have "required \<or> c \<notin> set (applied_checks ?s2)"
        using Cons.prems(2) xc by (auto simp: s1_def)
      from Cons.IH[OF cin this Cons.prems(3), of ?f2] obtain e s' where
        "run_checks P required xs ?s2 ?f2 = Inl (e, s')" by blast
      moreover have "run_checks P required (x # xs) s failed = run_checks P required xs ?s2 ?f2"
        using Inr r False by (auto simp: Let_def s1_def)
      ultimately show ?thesis by simp
    qed
  qed
qed

lemma run_checks_raised:
  "run_checks P required cs s failed = Inl (e, s') \<Longrightarrow>
   (\<exists>c env env'. c \<in> set cs \<and> check_fn P c env = (Inl e, env')) \<and>
   heap s' = heap s \<and> augments s' = augments s \<and> applied_tools s' = applied_tools s"
proof (induction cs arbitrary: s failed)
  case Nil
  then show ?case by simp
next
  case (Cons x xs)
  define s1 where "s1 = (if x \<in> set (applied_checks s) then s else s\<lparr>applied_checks := applied_checks s @ [x]\<rparr>)"
  have fr: "heap s1 = heap s" "augments s1 = augments s" "applied_tools s1 = applied_tools s"
    by (simp_all add: s1_def)
  obtain r e1 where r: "check_fn P x (current s1) = (r, e1)" by (cases "check_fn P x (current s1)")
  show ?case
  proof (cases "x \<in> set (applied_checks s) \<and> \<not> required")
    case True
    with Cons.prems have "run_checks P required xs s failed = Inl (e, s')" by (simp add: Let_def)
    from Cons.IH[OF this] show ?thesis by auto
  next
    case False
    show ?thesis
    proof (cases r)
      case (Inl e')
      with r False Cons.prems have "e' = e" "s' = s1\<lparr>current := e1\<rparr>"
        by (auto simp: Let_def s1_def split: if_splits)
      with Inl r fr show ?thesis by (intro conjI exI[of _ x]) auto
    next
      case (Inr v)
      with r False Cons.prems have
        "run_checks P required xs (s1\<lparr>current := e1, executed := executed s1 @ [(x, v)]\<rparr>)
           (if check_failed v then failed @ [x] else failed) = Inl (e, s')"
        by (auto simp: Let_def s1_def split: if_splits)
      from Cons.IH[OF this] fr show ?thesis by auto
    qed
  qed
qed

lemma checks_phase_raises:
  assumes "\<forall>env. \<exists>e env'. check_fn P c env = (Inl e, env')"
    and "c \<in> set (checks_of req) \<or> c \<in> set (checks_of opt) \<and> c \<notin> set (applied_checks s)"
  shows "\<exists>e s'. checks_phase P req opt s = Inl (e, s')"
proof (cases "c \<in> set (checks_of req)")
  case True
  from run_checks_raises[OF True _ assms(1), of True s "[]"] show ?thesis
    by (auto simp: checks_phase_def)
next
  case False
  with assms(2) have o: "c \<in> set (checks_of opt)" "c \<notin> set (applied_checks s)" by auto
  show ?thesis
  proof (cases "run_checks P True (checks_of req) s []")
    case (Inl x)
    then show ?thesis by (cases x) (simp add: checks_phase_def)
  next
    case (Inr y)
    obtain s1 f1 where y: "y = (s1, f1)" by (cases y)
    from run_checks_required_trace[OF Inr[unfolded y]] False o(2)
    have "c \<notin> set (applied_checks s1)" by auto
    then have "False \<or> c \<notin> set (applied_checks s1)" by simp
    from run_checks_raises[OF o(1) this assms(1), of f1] Inr y show ?thesis
      by (auto simp: checks_phase_def)
  qed
qed

lemma checks_phase_raised:
  assumes "checks_phase P req opt s = Inl (e, s')"
  shows "(\<exists>c env env'. check_fn P c env = (Inl e, env')) \<and>
         heap s' = heap s \<and> augments s' = augments s \<and> applied_tools s' = applied_tools s"
proof (cases "run_checks P True (checks_of req) s []")
  case (Inl x)
  with assms have "run_checks P True (checks_of req) s [] = Inl (e, s')"
    by (simp add: checks_phase_def)
  from run_checks_raised[OF this] show ?thesis by blast
next
  case (Inr y)
  obtain s1 f1 where y: "y = (s1, f1)" by (cases y)
  with assms Inr have "run_checks P False (checks_of opt) s1 f1 = Inl (e, s')"
    by (auto simp: checks_phase_def split: sum.splits)
  from run_checks_raised[OF this] run_checks_frame[OF Inr[unfolded y]] show ?thesis by auto
qed

lemma apply_env_raises:
  assumes "\<forall>env. \<exists>e env'. check_fn P c env = (Inl e, env')"
    and "c \<in> set (checks_of req) \<or> c \<in> set (checks_of opt) \<and> c \<notin> set (applied_checks s)"
  shows "\<exists>e s'. apply_env P s tools exact req opt = Inl (e, s') \<and>
           heap s' = heap s \<and> augments s' = augments s \<and>
           (\<exists>c' env env'. check_fn P c' env = (Inl e, env'))"
proof -
  let ?t = "tools_phase P tools exact s"
  have "set (applied_checks ?t) \<subseteq> set (applied_checks s)"
    by (simp add: tools_phase_applied_checks)
  with assms(2) have
    "c \<in> set (checks_of req) \<or> c \<in> set (checks_of opt) \<and> c \<notin> set (applied_checks ?t)" by auto
  from checks_phase_raises[OF assms(1) this] obtain e s' where
    r: "checks_phase P req opt ?t = Inl (e, s')" by blast
  from checks_phase_raised[OF r] tools_phase_frame[of P tools exact s] r show ?thesis
    by (auto simp: apply_env_def)
qed

lemma validate_augments_raises:
  assumes "\<forall>env. \<exists>e env'. check_fn P c env = (Inl e, env')"
    and "a \<in> set augs" and "c \<in> set (checks_of (Checks (Specification (heap s ! a))))"
    and "\<not> Valid (heap s ! a) \<or>
         c \<notin> set (applied_checks s) \<and> is_dependency (heap s) augs (heap s ! a)"
  shows "\<exists>e s'. validate_augments P s augs = Inl (e, s') \<and>
           heap s' = heap s \<and> augments s' = augments s \<and>
           (\<exists>c' env env'. check_fn P c' env = (Inl e, env'))"
proof -
  obtain tools checks depends_checks where
    col: "collect (heap s) augs augs [] [] [] = (tools, checks, depends_checks)"
    by (cases "collect (heap s) augs augs [] [] []") auto
  have "c \<in> set checks \<or> c \<in> set depends_checks \<and> c \<notin> set (applied_checks s)"
  proof (cases "Valid (heap s ! a)")
    case False
    from collect_required[OF assms(2) False assms(3), of augs "[]" "[]" "[]"] col
    show ?thesis by simp
  next
    case True
    with assms(4) have d: "c \<notin> set (applied_checks s)" "is_dependency (heap s) augs (heap s ! a)"
      by auto
    have "c \<in> set (snd (snd (collect (heap s) augs augs [] [] [])))"
      unfolding collect_depends_checks using assms(2,3) True d(2) by auto
    with col d(1) show ?thesis by simp
  qed
  then have "c \<in> set (checks_of (Some checks)) \<or>
             c \<in> set (checks_of (Some depends_checks)) \<and> c \<notin> set (applied_checks s)"
    by (simp add: checks_of_def)
  from apply_env_raises[OF assms(1) this, of tools False] obtain e s' where
    "apply_env P s tools False (Some checks) (Some depends_checks) = Inl (e, s')"
    "heap s' = heap s" "augments s' = augments s"
    "\<exists>c' env env'. check_fn P c' env = (Inl e, env')" by blast
  then show ?thesis using col by (auto simp: validate_augments_def)
qed

lemma AddAugment_raises:
  assumes "\<forall>env. \<exists>e env'. check_fn P c env = (Inl e, env')"
    and "Components sp = None" and "c \<in> set (checks_of (Checks sp))"
  shows "\<exists>e c' env env'. AddAugment P s sp = Some (Inl e) \<and> check_fn P c' env = (Inl e, env')"
proof -
  obtain cloned h where cl: "clone_augments (augments s) (heap s) [] = (cloned, h)"
    by (cases "clone_augments (augments s) (heap s) []") auto
  define s1 where "s1 = s\<lparr>heap := h @ [new_augment sp]\<rparr>"
  define s2 where "s2 = (if \<not> pre_applied s1 \<and> ENVPre P \<noteq> None
                     then s1\<lparr>current := set_vars_opt (ENVPre P) (current s1), pre_applied := True\<rparr>
                     else s1)"
  define augs where "augs = cloned @ [length h]"
  have n: "heap s2 ! length h = new_augment sp" by (simp add: s2_def s1_def)
  have a: "length h \<in> set augs" by (simp add: augs_def)
  have c: "c \<in> set (checks_of (Checks (Specification (heap s2 ! length h))))"
    using assms(3) by (simp add: n new_augment_def)
  have v: "\<not> Valid (heap s2 ! length h) \<or>
         c \<notin> set (applied_checks s2) \<and> is_dependency (heap s2) augs (heap s2 ! length h)"
    by (simp add: n new_augment_def)
  from validate_augments_raises[OF assms(1) a c v] obtain e s' where
    r: "validate_augments P s2 augs = Inl (e, s')"
       "\<exists>c' env env'. check_fn P c' env = (Inl e, env')" by blast
  have "AddAugment P s sp = Some (Inl e)"
    using cl assms(2) r(1) unfolding AddAugment_def s2_def s1_def augs_def Let_def by simp
  with r(2) show ?thesis by blast
qed

text \<open>
  Claim C1, as amended. Nothing catches the exception of a check. When a check raises
  whenever it is called, then: a call of \<^verbatim>\<open>_apply_env\<close> that holds it as a required
  check, or as an optional check that is not remembered, ends with an exception raised
  by a check; so does a call of \<^verbatim>\<open>_validate_augments\<close> on a list with an augment that
  has the check and is invalid, or is a dependency of an invalid augment while the check
  is not remembered; in both cases every augment object is as it was before the call: no
  augment is marked, neither valid nor invalid. And \<^verbatim>\<open>AddAugment\<close> for a specification
  without components that has the check ends with an exception raised by a check.
\<close>

theorem validate_augments_check_exception_propagates:
  assumes "\<forall>env. \<exists>e env'. check_fn P c env = (Inl e, env')"
  shows "(c \<in> set (checks_of req_checks) \<or>
            c \<in> set (checks_of opt_checks) \<and> c \<notin> set (applied_checks s) \<longrightarrow>
          (\<exists>e s'. apply_env P s tools exact req_checks opt_checks = Inl (e, s') \<and>
             heap s' = heap s \<and> augments s' = augments s \<and>
             (\<exists>c' env env'. check_fn P c' env = (Inl e, env')))) \<and>
         (a \<in> set augs \<and> c \<in> set (checks_of (Checks (Specification (heap s ! a)))) \<and>
            (\<not> Valid (heap s ! a) \<or>
             c \<notin> set (applied_checks s) \<and> is_dependency (heap s) augs (heap s ! a)) \<longrightarrow>
          (\<exists>e s'. validate_augments P s augs = Inl (e, s') \<and>
             heap s' = heap s \<and> augments s' = augments s \<and>
             (\<exists>c' env env'. check_fn P c' env = (Inl e, env')))) \<and>
         (Components sp = None \<and> c \<in> set (checks_of (Checks sp)) \<longrightarrow>
          (\<exists>e c' env env'. AddAugment P s sp = Some (Inl e) \<and>
             check_fn P c' env = (Inl e, env')))"
proof (intro conjI impI)
  assume "c \<in> set (checks_of req_checks) \<or>
            c \<in> set (checks_of opt_checks) \<and> c \<notin> set (applied_checks s)"
  from apply_env_raises[OF assms this]
  show "\<exists>e s'. apply_env P s tools exact req_checks opt_checks = Inl (e, s') \<and>
             heap s' = heap s \<and> augments s' = augments s \<and>
             (\<exists>c' env env'. check_fn P c' env = (Inl e, env'))" .
next
  assume h: "a \<in> set augs \<and> c \<in> set (checks_of (Checks (Specification (heap s ! a)))) \<and>
            (\<not> Valid (heap s ! a) \<or>
             c \<notin> set (applied_checks s) \<and> is_dependency (heap s) augs (heap s ! a))"
  from validate_augments_raises[OF assms h[THEN conjunct1] h[THEN conjunct2, THEN conjunct1]
      h[THEN conjunct2, THEN conjunct2]]
  show "\<exists>e s'. validate_augments P s augs = Inl (e, s') \<and>
             heap s' = heap s \<and> augments s' = augments s \<and>
             (\<exists>c' env env'. check_fn P c' env = (Inl e, env'))" .
next
  assume h: "Components sp = None \<and> c \<in> set (checks_of (Checks sp))"
  from AddAugment_raises[OF assms h[THEN conjunct1] h[THEN conjunct2]]
  show "\<exists>e c' env env'. AddAugment P s sp = Some (Inl e) \<and>
             check_fn P c' env = (Inl e, env')" .
qed

text \<open>
  Claim C1 as stated fails: the exception of check 0 leaves \<^verbatim>\<open>_apply_env\<close>,
  \<^verbatim>\<open>_validate_augments\<close> and \<^verbatim>\<open>AddAugment\<close>. In the validation of two invalid
  augments, the first with check 0 and the second with check 1, which passes, no
  augment is marked: the second one is not valid afterwards.
\<close>

theorem check_exception_counterexample:
  "apply_env demo_prims demo_session [] False (Some [0]) None =
     Inl (CheckException ''boom'', demo_session\<lparr>applied_checks := [0]\<rparr>) \<and>
   validate_augments demo_prims
     (demo_session\<lparr>heap := [new_augment (demo_spec 0 None (Some [0]) None),
                             new_augment (demo_spec 1 None (Some [1]) None)]\<rparr>) [0, 1]
     = Inl (CheckException ''boom'',
         demo_session\<lparr>heap := [new_augment (demo_spec 0 None (Some [0]) None),
                                 new_augment (demo_spec 1 None (Some [1]) None)],
                       applied_checks := [0]\<rparr>) \<and>
   AddAugment demo_prims demo_session (demo_spec 0 None (Some [0]) None)
     = Some (Inl (CheckException ''boom''))"
  by (simp add: apply_env_def tools_phase_def apply_plan_def checks_phase_def checks_of_def
      validate_augments_def AddAugment_def new_augment_def demo_spec_def
      demo_session_def demo_prims_def demo_check_def Let_def)

theorem validate_augments_check_exception_propagates_witness:
  "(\<exists>e s'. apply_env demo_prims (demo_session\<lparr>applied_checks := [1]\<rparr>) [''gcc''] False
              (Some [1]) (Some [1, 0]) = Inl (e, s') \<and>
      heap s' = heap (demo_session\<lparr>applied_checks := [1]\<rparr>) \<and>
      augments s' = augments (demo_session\<lparr>applied_checks := [1]\<rparr>) \<and>
      (\<exists>c' env env'. check_fn demo_prims c' env = (Inl e, env'))) \<and>
   (\<exists>e s'. validate_augments demo_prims
        (demo_session\<lparr>heap := [new_augment (demo_spec 0 None (Some [1, 0]) None)]\<rparr>) [0]
          = Inl (e, s') \<and>
      heap s' = [new_augment (demo_spec 0 None (Some [1, 0]) None)] \<and>
      augments s' = [] \<and>
      (\<exists>c' env env'. check_fn demo_prims c' env = (Inl e, env'))) \<and>
   (\<exists>e c' env env'. AddAugment demo_prims demo_session (demo_spec 0 None (Some [1, 0]) None)
        = Some (Inl e) \<and> check_fn demo_prims c' env = (Inl e, env'))"
proof -
  let ?s1 = "demo_session\<lparr>applied_checks := [1]\<rparr>"
  let ?sp = "demo_spec 0 None (Some [1, 0]) None"
  let ?s2 = "demo_session\<lparr>heap := [new_augment ?sp]\<rparr>"
  have r: "\<forall>env. \<exists>e env'. check_fn demo_prims 0 env = (Inl e, env')"
    by (simp add: demo_prims_def demo_check_def)
  have h1: "0 \<in> set (checks_of (Some [1])) \<or>
            0 \<in> set (checks_of (Some [1, 0])) \<and> 0 \<notin> set (applied_checks ?s1)"
    by (simp add: checks_of_def)
  have h2: "0 \<in> set [0::nat] \<and> 0 \<in> set (checks_of (Checks (Specification (heap ?s2 ! 0)))) \<and>
            (\<not> Valid (heap ?s2 ! 0) \<or>
             0 \<notin> set (applied_checks ?s2) \<and> is_dependency (heap ?s2) [0] (heap ?s2 ! 0))"
    by (simp add: checks_of_def new_augment_def demo_spec_def)
  have h3: "Components ?sp = None \<and> 0 \<in> set (checks_of (Checks ?sp))"
    by (simp add: checks_of_def demo_spec_def)
  have z: "heap ?s2 = [new_augment ?sp]" "augments ?s2 = []" by (simp_all add: demo_session_def)
  note t1 = validate_augments_check_exception_propagates[OF r, where s="?s1"
      and req_checks="Some [1]" and opt_checks="Some [1, 0]" and tools="[''gcc'']"
      and exact=False, THEN conjunct1, rule_format, OF h1]
  note t2 = validate_augments_check_exception_propagates[OF r, where s="?s2"
      and a=0 and augs="[0]", THEN conjunct2, THEN conjunct1, rule_format, OF h2, unfolded z]
  note t3 = validate_augments_check_exception_propagates[OF r, where s=demo_session
      and sp="?sp", THEN conjunct2, THEN conjunct2, rule_format, OF h3]
  from t1 t2 t3 show ?thesis by (intro conjI)
qed

subsection \<open>Marking the augments after validation\<close>

lemma mark_result:
  assumes "mark failed augs h ivs = (h', ivs')" and "\<forall>a \<in> set augs. a < length h"
  shows "length h' = length h \<and>
     (\<forall>a. a \<notin> set augs \<longrightarrow> h' ! a = h ! a) \<and>
     (\<forall>a. Specification (h' ! a) = Specification (h ! a) \<and> Tool (h' ! a) = Tool (h ! a) \<and>
          Component (h' ! a) = Component (h ! a)) \<and>
     (\<forall>a \<in> set augs. Valid (h' ! a) =
        (\<not> (\<exists>check \<in> set failed. check \<in> set (checks_of (Checks (Specification (h ! a))))))) \<and>
     ivs' = ivs @ filter (\<lambda>a. \<exists>check \<in> set failed.
                     check \<in> set (checks_of (Checks (Specification (h ! a))))) augs"
  using assms
proof (induction augs arbitrary: h ivs)
  case Nil
  then show ?case by simp
next
  case (Cons x xs)
  define ok where "ok = (\<lambda>g::augment. \<not> (\<exists>check \<in> set failed. check \<in> set (checks_of (Checks (Specification g)))))"
  define h1 where "h1 = h[x := (h ! x)\<lparr>Valid := ok (h ! x)\<rparr>]"
  have x: "x < length h" using Cons.prems(2) by simp
  have rec: "mark failed xs h1 (if ok (h ! x) then ivs else ivs @ [x]) = (h', ivs')"
    using Cons.prems(1) by (simp add: Let_def h1_def ok_def)
  have len: "\<forall>a \<in> set xs. a < length h1" using Cons.prems(2) by (simp add: h1_def)
  have same: "Specification (h1 ! a) = Specification (h ! a) \<and> Tool (h1 ! a) = Tool (h ! a) \<and>
          Component (h1 ! a) = Component (h ! a)" for a
    by (cases "a = x") (use x in \<open>auto simp: h1_def\<close>)
  have okeq: "ok (h1 ! a) = ok (h ! a)" for a using same[of a] by (simp add: ok_def)
  from Cons.IH[OF rec len] have ih:
    "length h' = length h1"
    "\<forall>a. a \<notin> set xs \<longrightarrow> h' ! a = h1 ! a"
    "\<forall>a. Specification (h' ! a) = Specification (h1 ! a) \<and> Tool (h' ! a) = Tool (h1 ! a) \<and>
          Component (h' ! a) = Component (h1 ! a)"
    "\<forall>a \<in> set xs. Valid (h' ! a) = ok (h1 ! a)"
    "ivs' = (if ok (h ! x) then ivs else ivs @ [x]) @ filter (\<lambda>a. \<not> ok (h1 ! a)) xs"
    by (simp_all add: ok_def)
  have v: "Valid (h' ! x) = ok (h ! x)"
  proof (cases "x \<in> set xs")
    case True
    with ih(4) okeq show ?thesis by simp
  next
    case False
    with ih(2) have "h' ! x = h1 ! x" by simp
    then show ?thesis using x by (simp add: h1_def)
  qed
  have "length h' = length h" using ih(1) by (simp add: h1_def)
  moreover have "\<forall>a. a \<notin> set (x # xs) \<longrightarrow> h' ! a = h ! a"
    using ih(2) by (auto simp: h1_def)
  moreover have "\<forall>a. Specification (h' ! a) = Specification (h ! a) \<and> Tool (h' ! a) = Tool (h ! a) \<and>
          Component (h' ! a) = Component (h ! a)" using ih(3) same by simp
  moreover have "\<forall>a \<in> set (x # xs). Valid (h' ! a) = ok (h ! a)"
    using v ih(4) okeq by simp
  moreover have "ivs' = ivs @ filter (\<lambda>a. \<not> ok (h ! a)) (x # xs)"
    using ih(5) okeq by simp
  ultimately show ?case unfolding ok_def by simp
qed

lemma apply_env_log:
  assumes "apply_env P s tools exact req opt = Inr (failed, s')"
  shows "\<exists>new. executed s' = executed s @ new \<and>
         failed = map fst (filter (\<lambda>cr. check_failed (snd cr)) new)"
  using checks_phase_log[OF assms[unfolded apply_env_def]] by simp

text \<open>
  Claim C3, as amended. Validation marks an augment of the list invalid exactly when
  one of its own checks was executed in this pass and failed, and valid otherwise; a
  dependency on an augment whose check failed plays no part. The invalid augments
  returned are those marked invalid, and no other augment object is changed.
\<close>

theorem validate_augments_marks_own_failures:
  assumes "validate_augments P s augs = Inr (invalid_augments, s')"
    and "\<forall>a \<in> set augs. a < length (heap s)"
  shows "\<exists>new. executed s' = executed s @ new \<and>
      (\<forall>a \<in> set augs. Valid (heap s' ! a) =
         (\<not> (\<exists>cr \<in> set new. check_failed (snd cr) \<and>
                fst cr \<in> set (checks_of (Checks (Specification (heap s ! a))))))) \<and>
      invalid_augments = filter (\<lambda>a. \<not> Valid (heap s' ! a)) augs \<and>
      (\<forall>a. a \<notin> set augs \<longrightarrow> heap s' ! a = heap s ! a)"
proof -
  obtain tools checks depends_checks where
    col: "collect (heap s) augs augs [] [] [] = (tools, checks, depends_checks)"
    by (cases "collect (heap s) augs augs [] [] []") auto
  from assms(1) col obtain failed s1 h where
    ae: "apply_env P s tools False (Some checks) (Some depends_checks) = Inr (failed, s1)" and
    mk: "mark failed augs (heap s1) [] = (h, invalid_augments)" and s': "s' = s1\<lparr>heap := h\<rparr>"
    by (auto simp: validate_augments_def split: sum.splits prod.splits)
  from apply_env_frame[OF ae] have hp: "heap s1 = heap s" by simp
  from apply_env_log[OF ae] obtain new where n: "executed s1 = executed s @ new"
    "failed = map fst (filter (\<lambda>cr. check_failed (snd cr)) new)" by blast
  have fl: "(\<exists>check \<in> set failed. check \<in> C) = (\<exists>cr \<in> set new. check_failed (snd cr) \<and> fst cr \<in> C)"
    for C :: "nat set" unfolding n(2) by force
  from mark_result[OF mk[unfolded hp] assms(2)] have m:
    "\<forall>a. a \<notin> set augs \<longrightarrow> h ! a = heap s ! a"
    "\<forall>a \<in> set augs. Valid (h ! a) =
        (\<not> (\<exists>check \<in> set failed. check \<in> set (checks_of (Checks (Specification (heap s ! a))))))"
    "invalid_augments = filter (\<lambda>a. \<exists>check \<in> set failed.
                     check \<in> set (checks_of (Checks (Specification (heap s ! a))))) augs"
    by simp_all
  have "invalid_augments = filter (\<lambda>a. \<not> Valid (h ! a)) augs"
    unfolding m(3) using m(2) by (intro filter_cong) auto
  with m(1,2) n(1) s' show ?thesis
    by (intro exI[of _ new]) (simp add: fl)
qed

text \<open>
  Claim C3 as stated fails. The augment at address 1 depends on the specification of
  the augment at address 0, whose check 2 fails during validation: the augment at
  address 0 is marked invalid, the dependent one is marked valid.
\<close>

theorem validate_augments_dependency_counterexample:
  "validate_augments demo_prims
     (demo_session\<lparr>augments := [0, 1],
        heap := [\<lparr>Specification = demo_spec 10 None (Some [2]) None, Tool = None,
                   Component = None, Valid = False\<rparr>,
                 \<lparr>Specification = demo_spec 11 None (Some [1]) (Some [10]), Tool = None,
                   Component = None, Valid = True\<rparr>]\<rparr>) [0, 1] =
   Inr ([0],
     demo_session\<lparr>augments := [0, 1],
        heap := [\<lparr>Specification = demo_spec 10 None (Some [2]) None, Tool = None,
                   Component = None, Valid = False\<rparr>,
                 \<lparr>Specification = demo_spec 11 None (Some [1]) (Some [10]), Tool = None,
                   Component = None, Valid = True\<rparr>],
        applied_checks := [2], executed := [(2, PyBool False)]\<rparr>)"
  by (simp add: validate_augments_def apply_env_def tools_phase_def apply_plan_def
      checks_phase_def checks_of_def is_dependency_def check_failed_def
      demo_session_def demo_prims_def demo_spec_def demo_check_def Let_def)


theorem validate_augments_marks_own_failures_witness:
  "\<exists>s'. validate_augments demo_prims
       (demo_session\<lparr>augments := [0, 1],
          heap := [\<lparr>Specification = demo_spec 10 None (Some [2]) None, Tool = None,
                     Component = None, Valid = False\<rparr>,
                   \<lparr>Specification = demo_spec 11 None (Some [1]) (Some [10]), Tool = None,
                     Component = None, Valid = True\<rparr>]\<rparr>) [0, 1] = Inr ([0], s') \<and>
     (\<forall>a \<in> set [0, 1]. a < length (heap
       (demo_session\<lparr>augments := [0, 1],
          heap := [\<lparr>Specification = demo_spec 10 None (Some [2]) None, Tool = None,
                     Component = None, Valid = False\<rparr>,
                   \<lparr>Specification = demo_spec 11 None (Some [1]) (Some [10]), Tool = None,
                     Component = None, Valid = True\<rparr>]\<rparr>))) \<and>
     (\<exists>new. executed s' = executed
       (demo_session\<lparr>augments := [0, 1],
          heap := [\<lparr>Specification = demo_spec 10 None (Some [2]) None, Tool = None,
                     Component = None, Valid = False\<rparr>,
                   \<lparr>Specification = demo_spec 11 None (Some [1]) (Some [10]), Tool = None,
                     Component = None, Valid = True\<rparr>]\<rparr>) @ new \<and>
      (\<forall>a \<in> set [0, 1]. Valid (heap s' ! a) =
         (\<not> (\<exists>cr \<in> set new. check_failed (snd cr) \<and>
                fst cr \<in> set (checks_of (Checks (Specification (heap
       (demo_session\<lparr>augments := [0, 1],
          heap := [\<lparr>Specification = demo_spec 10 None (Some [2]) None, Tool = None,
                     Component = None, Valid = False\<rparr>,
                   \<lparr>Specification = demo_spec 11 None (Some [1]) (Some [10]), Tool = None,
                     Component = None, Valid = True\<rparr>]\<rparr>) ! a))))))) \<and>
      [0] = filter (\<lambda>a. \<not> Valid (heap s' ! a)) [0, 1] \<and>
      (\<forall>a. a \<notin> set [0, 1] \<longrightarrow> heap s' ! a = heap
       (demo_session\<lparr>augments := [0, 1],
          heap := [\<lparr>Specification = demo_spec 10 None (Some [2]) None, Tool = None,
                     Component = None, Valid = False\<rparr>,
                   \<lparr>Specification = demo_spec 11 None (Some [1]) (Some [10]), Tool = None,
                     Component = None, Valid = True\<rparr>]\<rparr>) ! a))"
proof -
  let ?s = "demo_session\<lparr>augments := [0, 1],
          heap := [\<lparr>Specification = demo_spec 10 None (Some [2]) None, Tool = None,
                     Component = None, Valid = False\<rparr>,
                   \<lparr>Specification = demo_spec 11 None (Some [1]) (Some [10]), Tool = None,
                     Component = None, Valid = True\<rparr>]\<rparr>"
  have "\<exists>s'. validate_augments demo_prims ?s [0, 1] = Inr ([0], s')"
    by (simp add: validate_augments_def apply_env_def tools_phase_def apply_plan_def
      checks_phase_def checks_of_def is_dependency_def check_failed_def
      demo_session_def demo_prims_def demo_spec_def demo_check_def Let_def)
  then obtain s' where h: "validate_augments demo_prims ?s [0, 1] = Inr ([0], s')" by blast
  have len: "\<forall>a \<in> set [0, 1]. a < length (heap ?s)" by simp
  show ?thesis
    by (rule exI[of _ s'])
       (rule conjI[OF h conjI[OF len validate_augments_marks_own_failures[OF h len]]])
qed

subsection \<open>The candidate scans\<close>

lemma scan_no_hit_forward:
  "\<forall>c \<in> set comps. \<not> hit c \<Longrightarrow> 0 \<le> idx \<Longrightarrow> idx \<le> int (length comps) \<Longrightarrow>
   scan hit comps True idx offset n = (None, offset, n + nat (int (length comps) - idx))"
proof (induction "nat (int (length comps) - idx)" arbitrary: idx n)
  case 0
  then have "idx = int (length comps)" by simp
  then show ?case by (subst scan.simps) simp
next
  case (Suc m)
  then have lt: "idx < int (length comps)" by simp
  with Suc.prems have nh: "\<not> hit (comps ! nat idx)" by simp
  have "scan hit comps True idx offset n = scan hit comps True (idx + 1) offset (Suc n)"
    using lt Suc.prems(2) nh by (subst scan.simps) (simp add: Let_def)
  also have "\<dots> = (None, offset, Suc n + nat (int (length comps) - (idx + 1)))"
    using Suc.hyps Suc.prems lt by (intro Suc.hyps(1)) auto
  finally show ?case using lt by (simp add: nat_diff_distrib')
qed

lemma scan_first_hit:
  "find hit (drop i comps) = Some c \<Longrightarrow>
   scan hit comps True (int i) 0 n =
     (Some c, 0, n + length (takeWhile (\<lambda>x. \<not> hit x) (drop i comps)) + 1)"
proof (induction "length comps - i" arbitrary: i n)
  case 0
  then show ?case by simp
next
  case (Suc m)
  then have lt: "i < length comps" by simp
  then have d: "drop i comps = comps ! i # drop (Suc i) comps" by (simp add: Cons_nth_drop_Suc)
  show ?case
  proof (cases "hit (comps ! i)")
    case True
    with Suc.prems d have "c = comps ! i" by simp
    with True lt show ?thesis by (subst scan.simps) (simp add: d Let_def)
  next
    case False
    with Suc.prems d have f: "find hit (drop (Suc i) comps) = Some c" by simp
    have "scan hit comps True (int i) 0 n = scan hit comps True (int (Suc i)) 0 (Suc n)"
      using lt False by (subst scan.simps) (simp add: Let_def add.commute)
    also have "\<dots> = (Some c, 0, Suc n + length (takeWhile (\<lambda>x. \<not> hit x) (drop (Suc i) comps)) + 1)"
      using Suc.hyps lt f by (intro Suc.hyps(1)) auto
    finally show ?thesis using False by (simp add: d)
  qed
qed

lemma find_Some_hit: "find hit xs = Some c \<Longrightarrow> hit c \<and> c \<in> set xs"
  by (induction xs) (auto split: if_splits)

text \<open>
  Claim C7. For a newly created augment whose specification has a candidate component
  that is a key of the base environment, component selection with offset 0 sets the
  first such candidate, with no tool, after testing the candidates up to it; the cache
  is not consulted: \<^verbatim>\<open>GetTool\<close> is not called, and whatever the cache holds the result
  is the same. Keys of the environment are names of construction variables, so the
  empty string is not one.
\<close>

theorem set_component_local_first:
  assumes "a < length (heap s)" and "heap s ! a = new_augment sp"
    and "Components sp = Some comps"
    and "find (has_key (base s)) comps = Some c"
    and "\<not> has_key (base s) []"
  shows "\<exists>s'. set_component P s a 0 = Some (Inr (True, s')) \<and>
           Component (heap s' ! a) = Some c \<and> Tool (heap s' ! a) = None \<and>
           lookups s' = lookups s \<and> cache s' = cache s \<and>
           probes s' = probes s + Suc (length (takeWhile (\<lambda>x. \<not> has_key (base s) x) comps)) \<and>
           (\<forall>c'. set_component P (s\<lparr>cache := c'\<rparr>) a 0 = Some (Inr (True, s'\<lparr>cache := c'\<rparr>)))"
proof -
  let ?k = "Suc (length (takeWhile (\<lambda>x. \<not> has_key (base s) x) comps))"
  from find_Some_hit[OF assms(4)] assms(5) have cne: "c \<noteq> []" by auto
  have sc: "scan (has_key (base s)) comps True 0 0 0 = (Some c, 0, ?k)"
    using scan_first_hit[of "has_key (base s)" 0 comps c 0] assms(4) by simp
  have loc: "set_component_local (base s) comps None 0 = Inr (Some c, 0, ?k)"
    using sc by (simp add: set_component_local_def ref_index_def)
  define s' where "s' = assign (s\<lparr>probes := probes s + ?k\<rparr>) a (Some c) None"
  have "set_component P (s\<lparr>cache := c'\<rparr>) a 0 = Some (Inr (True, s'\<lparr>cache := c'\<rparr>))" for c'
    using assms(2,3) loc cne
    by (simp add: set_component_def new_augment_def Let_def s'_def assign_def)
  moreover from this[of "cache s"] have "set_component P s a 0 = Some (Inr (True, s'))"
    by (simp add: s'_def assign_def)
  moreover have "Component (heap s' ! a) = Some c" "Tool (heap s' ! a) = None"
    "lookups s' = lookups s" "cache s' = cache s" "probes s' = probes s + ?k"
    using assms(1) by (simp_all add: s'_def assign_def)
  ultimately show ?thesis by blast
qed

theorem set_component_local_first_witness:
  "\<exists>s'. set_component demo_prims (demo_session\<lparr>heap := [new_augment (demo_spec 0 (Some [''CPATH'', ''INCLUDE'']) None None)]\<rparr>) 0 0 = Some (Inr (True, s')) \<and>
     Component (heap s' ! 0) = Some ''INCLUDE'' \<and> Tool (heap s' ! 0) = None \<and>
     lookups s' = 0 \<and> probes s' = 2"
proof -
  let ?sp = "demo_spec 0 (Some [''CPATH'', ''INCLUDE'']) None None"
  let ?s = "demo_session\<lparr>heap := [new_augment ?sp]\<rparr>"
  have h1: "0 < length (heap ?s)" by simp
  have h2: "heap ?s ! 0 = new_augment ?sp" by simp
  have h3: "Components ?sp = Some [''CPATH'', ''INCLUDE'']" by (simp add: demo_spec_def)
  have h4: "find (has_key (base ?s)) [''CPATH'', ''INCLUDE''] = Some ''INCLUDE''"
    by (simp add: has_key_def demo_session_def demo_base_def)
  have h5: "\<not> has_key (base ?s) []"
    by (simp add: has_key_def demo_session_def demo_base_def)
  have k: "length (takeWhile (\<lambda>x. \<not> has_key (base ?s) x) [''CPATH'', ''INCLUDE'']) = 1"
    by (simp add: has_key_def demo_session_def demo_base_def)
  have z: "lookups ?s = 0" "probes ?s = 0" by (simp_all add: demo_session_def)
  from set_component_local_first[OF h1 h2 h3 h4 h5, of demo_prims] obtain s' where
    r: "set_component demo_prims ?s 0 0 = Some (Inr (True, s'))"
       "Component (heap s' ! 0) = Some ''INCLUDE''" "Tool (heap s' ! 0) = None"
       "lookups s' = lookups ?s"
       "probes s' = probes ?s
          + Suc (length (takeWhile (\<lambda>x. \<not> has_key (base ?s) x) [''CPATH'', ''INCLUDE'']))"
    by blast
  have "lookups s' = 0" using r(4) z(1) by simp
  moreover have "probes s' = 2" unfolding r(5) k z(2) by simp
  ultimately show ?thesis using r(1,2,3) by blast
qed

subsection \<open>A request that nothing provides\<close>

lemma GetTool_loop_no_hit:
  assumes "\<forall>t \<in> set (Tools c). \<exists>m. ToolComponents c t = Some m \<and> (\<forall>x \<in> set comps. m x = None)"
    and "i \<le> length (Tools c)"
  shows "GetTool_loop P b comps True c (int i) 0 offset n =
           Some (None, offset, n + (length (Tools c) - i) * length comps, c)"
  using assms(2)
proof (induction "length (Tools c) - i" arbitrary: i n)
  case 0
  then have "i = length (Tools c)" by simp
  then show ?case by (subst GetTool_loop.simps) simp
next
  case (Suc k)
  then have lt: "i < length (Tools c)" by simp
  then have "Tools c ! i \<in> set (Tools c)" by simp
  with assms(1) obtain m where m: "ToolComponents c (Tools c ! i) = Some m"
    "\<forall>x \<in> set comps. m x = None" by blast
  have sc: "scan (\<lambda>component. m component \<noteq> None) comps True 0 offset n
              = (None, offset, n + length comps)"
    using scan_no_hit_forward[of comps "\<lambda>component. m component \<noteq> None" 0 offset n] m(2)
    by simp
  have "GetTool_loop P b comps True c (int i) 0 offset n =
        GetTool_loop P b comps True c (int (Suc i)) 0 offset (n + length comps)"
    using lt m(1) sc by (subst GetTool_loop.simps) (simp add: Let_def add.commute)
  also have "\<dots> = Some (None, offset, (n + length comps) + (length (Tools c) - Suc i) * length comps, c)"
    using Suc.hyps lt by (intro Suc.hyps(1)) auto
  also have "(n + length comps) + (length (Tools c) - Suc i) * length comps =
             n + (length (Tools c) - i) * length comps"
  proof -
    from lt obtain d where "length (Tools c) - i = Suc d" "length (Tools c) - Suc i = d"
      by (cases "length (Tools c) - i") auto
    then show ?thesis by simp
  qed
  finally show ?case .
qed

lemma GetTool_no_hit:
  assumes "\<forall>t \<in> set (Tools c). \<exists>m. ToolComponents c t = Some m \<and> (\<forall>x \<in> set (c0 # cs). m x = None)"
  shows "GetTool P b c (c0 # cs) (Some c0) None 0 =
           Some (Inr (None, 0, length (Tools c) * length (c0 # cs), c))"
proof (cases "Tools c = []")
  case True
  then show ?thesis by (simp add: GetTool_def)
next
  case False
  have r1: "ref_index (c0 # cs) (Some c0) = Some 0" by (simp add: ref_index_def)
  have r2: "ref_index (Tools c) None = Some 0" by (simp add: ref_index_def)
  show ?thesis
    using GetTool_loop_no_hit[OF assms, of 0 P b 0 0] False r1 r2
    by (simp add: GetTool_def)
qed

lemma set_component_unsatisfiable:
  assumes "heap s ! a = new_augment sp" and "Components sp = Some comps" and "comps \<noteq> []"
    and "\<forall>c \<in> set comps. \<not> has_key (base s) c"
    and "\<forall>t \<in> set (Tools (cache s)).
           \<exists>m. ToolComponents (cache s) t = Some m \<and> (\<forall>c \<in> set comps. m c = None)"
  shows "set_component P s a 0 =
           Some (Inr (False,
             s\<lparr>probes := probes s + length comps * Suc (length (Tools (cache s))),
               lookups := Suc (lookups s)\<rparr>))"
proof -
  from assms(3) obtain c0 cs where comps: "comps = c0 # cs" by (cases comps) auto
  have sc: "scan (has_key (base s)) comps True 0 0 0 = (None, 0, length comps)"
    using scan_no_hit_forward[of comps "has_key (base s)" 0 0 0] assms(4) by simp
  have loc: "set_component_local (base s) comps None 0 = Inr (None, 0, length comps)"
    using sc by (simp add: set_component_local_def ref_index_def)
  have gt: "GetTool P (base s) (cache s) comps (Some c0) None 0 =
           Some (Inr (None, 0, length (Tools (cache s)) * length comps, cache s))"
    using GetTool_no_hit[of "cache s" c0 cs P "base s"] assms(5) comps by simp
  have "try_sources P s a comps [LOCAL, TOOL] None 0 =
          Some (Inr (False,
             s\<lparr>probes := probes s + length comps * Suc (length (Tools (cache s))),
               lookups := Suc (lookups s)\<rparr>))"
    using loc gt assms(1) comps
    by (simp add: Let_def new_augment_def algebra_simps)
  then show ?thesis
    using assms(1,2) by (simp add: set_component_def new_augment_def Let_def)
qed

lemma AddAugment_unsatisfiable:
  assumes "Components sp = Some comps" and "comps \<noteq> []"
    and "\<forall>c \<in> set comps. \<not> has_key (base s) c"
    and "\<forall>t \<in> set (Tools (cache s)).
           \<exists>m. ToolComponents (cache s) t = Some m \<and> (\<forall>c \<in> set comps. m c = None)"
  shows "\<exists>s'. AddAugment P s sp = Some (Inr (False, s')) \<and> augments s' = augments s \<and>
           probes s' = probes s + length comps * Suc (length (Tools (cache s)))"
proof -
  obtain cloned h where cl: "clone_augments (augments s) (heap s) [] = (cloned, h)"
    by (cases "clone_augments (augments s) (heap s) []") auto
  define s1 where "s1 = s\<lparr>heap := h @ [new_augment sp]\<rparr>"
  define s2 where "s2 = (if \<not> pre_applied s1 \<and> ENVPre P \<noteq> None
                     then s1\<lparr>current := set_vars_opt (ENVPre P) (current s1), pre_applied := True\<rparr>
                     else s1)"
  have f: "heap s2 ! length h = new_augment sp" "base s2 = base s" "cache s2 = cache s"
    "augments s2 = augments s" "probes s2 = probes s"
    by (simp_all add: s2_def s1_def)
  define s3 where "s3 = s2\<lparr>probes := probes s2 + length comps * Suc (length (Tools (cache s2))),
               lookups := Suc (lookups s2)\<rparr>"
  have sc: "set_component P s2 (length h) 0 = Some (Inr (False, s3))"
    unfolding s3_def using assms f by (intro set_component_unsatisfiable) auto
  have lp: "AddAugment_loop P s3 (cloned @ [length h]) [] [] False = Some (Inr (False, s3))"
    by (subst AddAugment_loop.simps) simp
  have "AddAugment P s sp =
          (case set_component P s2 (length h) 0 of
             None \<Rightarrow> None
           | Some (Inl e) \<Rightarrow> Some (Inl e)
           | Some (Inr (do_loop, s3)) \<Rightarrow>
               AddAugment_loop P s3 (cloned @ [length h]) [] [] do_loop)"
    using cl assms(1) unfolding AddAugment_def s2_def s1_def Let_def by simp
  then have "AddAugment P s sp = Some (Inr (False, s3))"
    using sc lp by simp
  moreover have "augments s3 = augments s"
    "probes s3 = probes s + length comps * Suc (length (Tools (cache s)))"
    using f by (simp_all add: s3_def)
  ultimately show ?thesis by blast
qed



subsection \<open>What the steps of the search change\<close>

lemma try_sources_frame:
  "try_sources P s a comps srcs r offset = Some (Inr (b, s')) \<Longrightarrow>
   augments s' = augments s \<and> length (heap s') = length (heap s) \<and> base s' = base s \<and>
   (\<forall>x. x \<noteq> a \<longrightarrow> heap s' ! x = heap s ! x)"
proof (induction srcs arbitrary: s r offset)
  case Nil
  then show ?case by simp
next
  case (Cons src srcs)
  show ?case
  proof (cases src)
    case LOCAL
    from Cons.prems LOCAL obtain component offset' n where
      l: "set_component_local (base s) comps r offset = Inr (component, offset', n)"
      by (auto split: sum.splits)
    show ?thesis
    proof (cases "truthy component")
      case True
      with Cons.prems LOCAL l have "s' = assign (s\<lparr>probes := probes s + n\<rparr>) a component None"
        by (simp add: Let_def)
      then show ?thesis by (simp add: assign_def)
    next
      case False
      with Cons.prems LOCAL l obtain c0 where
        "try_sources P (s\<lparr>probes := probes s + n\<rparr>) a comps srcs (Some c0) offset' = Some (Inr (b, s'))"
        by (auto simp: Let_def split: list.splits)
      from Cons.IH[OF this] show ?thesis by simp
    qed
  next
    case TOOL
    from Cons.prems TOOL obtain ct offset' n c' where
      g: "GetTool P (base s) (cache s) comps r (Tool (heap s ! a)) offset = Some (Inr (ct, offset', n, c'))"
      by (auto split: option.splits sum.splits)
    define s1 where "s1 = s\<lparr>cache := c', probes := probes s + n, lookups := Suc (lookups s)\<rparr>"
    show ?thesis
    proof (cases ct)
      case None
      with Cons.prems TOOL g obtain rc where
        "try_sources P s1 a comps srcs (Some rc) offset' = Some (Inr (b, s'))"
        by (auto simp: Let_def s1_def split: list.splits)
      from Cons.IH[OF this] show ?thesis by (simp add: s1_def)
    next
      case (Some p)
      obtain component tool where p: "p = (component, tool)" by (cases p)
      with Cons.prems TOOL g Some have "s' = assign s1 a (Some component) (Some tool)"
        by (simp add: Let_def s1_def)
      then show ?thesis by (simp add: assign_def s1_def)
    qed
  qed
qed

lemma set_component_frame:
  "set_component P s a offset = Some (Inr (b, s')) \<Longrightarrow>
   augments s' = augments s \<and> length (heap s') = length (heap s) \<and> base s' = base s \<and>
   (\<forall>x. x \<noteq> a \<longrightarrow> heap s' ! x = heap s ! x)"
  by (auto simp: set_component_def Let_def split: option.splits dest!: try_sources_frame)

lemma apply_delta_frame:
  "apply_delta P s delta i = Some (Inr (r, s')) \<Longrightarrow>
   augments s' = augments s \<and> length (heap s') = length (heap s) \<and> base s' = base s \<and>
   (\<forall>x. x \<notin> fst ` set delta \<longrightarrow> heap s' ! x = heap s ! x) \<and>
   (\<forall>k. r = Some k \<longrightarrow> i \<le> k \<and> k - i < length delta)"
proof (induction delta arbitrary: s i)
  case Nil
  then show ?case by simp
next
  case (Cons d ds)
  obtain a offset where d: "d = (a, offset)" by (cases d)
  from Cons.prems d obtain ok s1 where
    sc: "set_component P s a offset = Some (Inr (ok, s1))"
    by (auto split: option.splits sum.splits)
  note f1 = set_component_frame[OF sc]
  show ?case
  proof (cases ok)
    case True
    with Cons.prems d sc have "apply_delta P s1 ds (Suc i) = Some (Inr (r, s'))" by simp
    from Cons.IH[OF this] f1 d show ?thesis by auto
  next
    case False
    with Cons.prems d sc have "s' = s1" "r = Some i" by simp_all
    with f1 d show ?thesis by auto
  qed
qed

lemma delta_add_fst: "fst ` set (delta_add d a offset) \<subseteq> insert a (fst ` set d)"
  by (induction d a offset rule: delta_add.induct) auto

lemma fold_delta_add_fst:
  "fst ` set (fold (\<lambda>a d. delta_add d a k) xs d0) \<subseteq> set xs \<union> fst ` set d0"
proof (induction xs arbitrary: d0)
  case Nil
  then show ?case by simp
next
  case (Cons x xs)
  from Cons.IH[of "delta_add d0 x k"] delta_add_fst[of d0 x k] show ?case by auto
qed

lemma change_delta_fst:
  "fst ` set (change_delta change last_change) \<subseteq> set change \<union> set last_change"
proof -
  have "fst ` set (change_delta change last_change)
          \<subseteq> set last_change \<union> fst ` set (fold (\<lambda>a d. delta_add d a 1) change [])"
    unfolding change_delta_def by (rule fold_delta_add_fst)
  moreover have "fst ` set (fold (\<lambda>a d. delta_add d a 1) change []) \<subseteq> set change"
    using fold_delta_add_fst[of 1 change "[]"] by simp
  ultimately show ?thesis by auto
qed

lemma repeat_update_set:
  "repeat_update k offset a change = Inr change' \<Longrightarrow> set change' \<subseteq> insert a (set change)"
proof (induction k arbitrary: change)
  case 0
  then show ?case by auto
next
  case (Suc k)
  show ?case
  proof (cases "offset > 0")
    case True
    with Suc.prems have "repeat_update k offset a (change @ [a]) = Inr change'" by simp
    from Suc.IH[OF this] show ?thesis by auto
  next
    case False
    with Suc.prems have "repeat_update k offset a (remove1 a change) = Inr change'"
      by (auto split: if_splits)
    from Suc.IH[OF this] show ?thesis using set_remove1_subset[of a change] by auto
  qed
qed

lemma actual_change_set:
  "actual_change delta change = Inr change' \<Longrightarrow> set change' \<subseteq> set change \<union> fst ` set delta"
proof (induction delta arbitrary: change)
  case Nil
  then show ?case by auto
next
  case (Cons d ds)
  obtain a offset where d: "d = (a, offset)" by (cases d)
  from Cons.prems d obtain c1 where
    r: "repeat_update (nat \<bar>offset\<bar>) offset a change = Inr c1" and
    rest: "actual_change ds c1 = Inr change'"
    by (auto split: sum.splits)
  from repeat_update_set[OF r] Cons.IH[OF rest] d show ?case by auto
qed

lemma reconfigure_frame:
  assumes "reconfigure P s change changes do_loop = Some (Inr (proceed, change', changes', s'))"
    and "set change \<subseteq> B" and "\<forall>ch \<in> set changes. set ch \<subseteq> B"
  shows "set change' \<subseteq> B \<and> (\<forall>ch \<in> set changes'. set ch \<subseteq> B) \<and>
         augments s' = augments s \<and> length (heap s') = length (heap s) \<and> base s' = base s \<and>
         (\<forall>x. x \<notin> B \<longrightarrow> heap s' ! x = heap s ! x)"
proof (cases do_loop)
  case True
  with assms show ?thesis by (simp add: reconfigure_def)
next
  case False
  show ?thesis
  proof (cases "changes = []")
    case True
    with assms False show ?thesis by (simp add: reconfigure_def)
  next
    case ne: False
    define delta where "delta = change_delta (last changes) change"
    have lastB: "set (last changes) \<subseteq> B" using assms(3) ne by simp
    have butB: "\<forall>ch \<in> set (butlast changes). set ch \<subseteq> B"
      using assms(3) by (meson in_set_butlastD)
    have dB: "fst ` set delta \<subseteq> B"
      using change_delta_fst[of "last changes" change] lastB assms(2) by (auto simp: delta_def)
    from assms(1) False ne obtain r s1 where
      ad: "apply_delta P s delta 0 = Some (Inr (r, s1))"
      by (auto simp: reconfigure_def Let_def delta_def split: option.splits sum.splits)
    note f0 = apply_delta_frame[OF ad]
    have fr: "\<forall>x. x \<notin> B \<longrightarrow> heap s1 ! x = heap s ! x" using f0 dB by blast
    have f: "augments s1 = augments s" "length (heap s1) = length (heap s)" "base s1 = base s"
      using f0 by simp_all
    show ?thesis
    proof (cases r)
      case None
      with assms(1) False ne ad have "change' = last changes" "changes' = butlast changes" "s' = s1"
        by (simp_all add: reconfigure_def Let_def delta_def)
      with f fr lastB butB show ?thesis by simp
    next
      case (Some k)
      with assms(1) False ne ad have
        ac: "actual_change (take k delta) change = Inr change'" and
        e: "changes' = butlast changes" "s' = s1"
        by (auto simp: reconfigure_def Let_def delta_def split: sum.splits)
      have "fst ` set (take k delta) \<subseteq> B" using dB set_take_subset[of k delta] by auto
      with actual_change_set[OF ac] assms(2) have "set change' \<subseteq> B" by auto
      with f fr e butB show ?thesis by simp
    qed
  qed
qed

lemma mark_frame:
  "mark failed augs h ivs = (h', ivs') \<Longrightarrow>
   length h' = length h \<and> (\<forall>x. x \<notin> set augs \<longrightarrow> h' ! x = h ! x) \<and>
   (\<forall>x. Tool (h' ! x) = Tool (h ! x)) \<and> set ivs' \<subseteq> set ivs \<union> set augs"
proof (induction augs arbitrary: h ivs)
  case Nil
  then show ?case by simp
next
  case (Cons a as)
  define h1 where "h1 = h[a := (h ! a)\<lparr>Valid := \<not> (\<exists>check \<in> set failed.
                        check \<in> set (checks_of (Checks (Specification (h ! a)))))\<rparr>]"
  define iv1 where "iv1 = (if \<not> (\<exists>check \<in> set failed.
                        check \<in> set (checks_of (Checks (Specification (h ! a)))))
                   then ivs else ivs @ [a])"
  have rec: "mark failed as h1 iv1 = (h', ivs')"
    using Cons.prems by (simp add: Let_def h1_def iv1_def)
  have iv1: "set iv1 \<subseteq> insert a (set ivs)" by (auto simp: iv1_def)
  have t: "Tool (h1 ! x) = Tool (h ! x)" for x
  proof (cases "a < length h")
    case True
    then show ?thesis by (cases "x = a") (auto simp: h1_def)
  next
    case False
    then have "h1 = h" unfolding h1_def by (intro list_update_beyond) simp
    then show ?thesis by simp
  qed
  from Cons.IH[OF rec] iv1 t show ?case by (auto simp: h1_def)
qed

lemma apply_tools_base [simp]: "base (apply_tools P ts n s) = base s"
  by (induction ts arbitrary: n s) (simp_all add: Let_def)

lemma validate_augments_frame:
  assumes "validate_augments P s augs = Inr (invalid, s')"
  shows "augments s' = augments s \<and> length (heap s') = length (heap s) \<and> base s' = base s \<and>
         (\<forall>x. x \<notin> set augs \<longrightarrow> heap s' ! x = heap s ! x) \<and>
         (\<forall>x. Tool (heap s' ! x) = Tool (heap s ! x)) \<and> set invalid \<subseteq> set augs"
proof -
  obtain tools checks depends_checks where
    col: "collect (heap s) augs augs [] [] [] = (tools, checks, depends_checks)"
    by (cases "collect (heap s) augs augs [] [] []") auto
  from assms col obtain failed s1 h where
    ae: "apply_env P s tools False (Some checks) (Some depends_checks) = Inr (failed, s1)" and
    mk: "mark failed augs (heap s1) [] = (h, invalid)" and s': "s' = s1\<lparr>heap := h\<rparr>"
    by (auto simp: validate_augments_def split: sum.splits prod.splits)
  have b: "base s1 = base s"
    using checks_phase_frame[OF ae[unfolded apply_env_def]]
    by (simp add: tools_phase_def reset_environment_def Let_def split: prod.splits)
  from apply_env_frame[OF ae] mark_frame[OF mk] s' b show ?thesis by simp
qed

subsection \<open>The committed augments are left alone by a failed search\<close>

lemma find_active_conflict:
  "find_active c h augment xs i active_idx overlap tool_present = Inr (Inl x) \<Longrightarrow> x \<in> set xs"
proof (induction xs arbitrary: i active_idx overlap tool_present)
  case Nil
  then show ?case by simp
next
  case (Cons y ys)
  show ?case
  proof (cases "truthy (Tool augment) \<and> Tool augment = Tool (h ! y)")
    case True
    from True have t1: "truthy (Tool augment)" and t2: "Tool (h ! y) = Tool augment" by auto
    have "find_active c h augment (y # ys) i active_idx overlap tool_present =
          find_active c h augment ys (Suc i)
             (if tool_present then active_idx else i) overlap True"
      by (simp add: t1 t2)
    with Cons.prems have "find_active c h augment ys (Suc i)
             (if tool_present then active_idx else i) overlap True = Inr (Inl x)" by simp
    from Cons.IH[OF this] show ?thesis by simp
  next
    case False
    with Cons.prems have "x = y \<or> (\<exists>i' a' o' p'. find_active c h augment ys i' a' o' p' = Inr (Inl x))"
      by (auto simp: Let_def split: sum.splits if_splits)
    then show ?thesis using Cons.IH by auto
  qed
qed

lemma set_insert_at [simp]: "set (insert_at p a xs) = insert a (set xs)"
proof -
  have "set (take p xs) \<union> set (drop p xs) = set xs"
    by (metis append_take_drop_id set_append)
  then show ?thesis by (auto simp: insert_at_def)
qed

lemma order_loop_sets:
  "order_loop c h as ordered = Inr r \<Longrightarrow>
   (case r of Inl (a, x) \<Rightarrow> a \<in> set as \<and> x \<in> set as \<union> set ordered
            | Inr res \<Rightarrow> set res = set as \<union> set ordered)"
proof (induction as arbitrary: ordered)
  case Nil
  then show ?case by auto
next
  case (Cons a as)
  from Cons.prems obtain ov fa where
    ov: "initial_overlap c (h ! a) = Inr ov" and
    fa: "find_active c h (h ! a) ordered 0 0 ov False = Inr fa"
    by (auto split: sum.splits)
  show ?case
  proof (cases fa)
    case (Inl x)
    with Cons.prems ov fa have "r = Inl (a, x)" by simp
    moreover from find_active_conflict[OF fa[unfolded Inl]] have "x \<in> set ordered" .
    ultimately show ?thesis by simp
  next
    case (Inr p)
    with Cons.prems ov fa have "order_loop c h as (insert_at p a ordered) = Inr r" by simp
    from Cons.IH[OF this] show ?thesis by (auto split: sum.splits)
  qed
qed

lemma order_augments_sets:
  assumes "order_augments s augs = Inr (conflict, augs')"
  shows "set augs' = set augs \<and> (\<forall>a x. conflict = Some (a, x) \<longrightarrow> a \<in> set augs \<and> x \<in> set augs)"
proof -
  from assms obtain r where r: "order_loop (cache s) (heap s) (rev augs) [] = Inr r"
    by (auto simp: order_augments_def split: sum.splits)
  from order_loop_sets[OF r] assms r show ?thesis
    by (cases r) (auto simp: order_augments_def)
qed

lemma order_and_validate_frame:
  assumes "order_and_validate P s augs = Inr (conflicting, augs', s')"
  shows "set augs' = set augs \<and> set conflicting \<subseteq> set augs \<and>
         augments s' = augments s \<and> length (heap s') = length (heap s) \<and> base s' = base s \<and>
         (\<forall>x. x \<notin> set augs \<longrightarrow> heap s' ! x = heap s ! x)"
proof -
  from assms obtain conflict where
    oa: "order_augments s augs = Inr (conflict, augs')"
    by (auto simp: order_and_validate_def split: sum.splits prod.splits option.splits)
  note os = order_augments_sets[OF oa]
  show ?thesis
  proof (cases conflict)
    case None
    with assms oa have "validate_augments P s augs' = Inr (conflicting, s')"
      by (auto simp: order_and_validate_def split: sum.splits)
    from validate_augments_frame[OF this] os show ?thesis by simp
  next
    case (Some p)
    obtain a x where "p = (a, x)" by (cases p)
    with Some assms oa os show ?thesis by (auto simp: order_and_validate_def)
  qed
qed

lemma clone_augments_shape:
  "clone_augments as h cloned = (cloned', h') \<Longrightarrow>
   cloned' = cloned @ [length h ..< length h + length as] \<and>
   length h' = length h + length as \<and> take (length h) h' = h"
proof (induction as arbitrary: h cloned)
  case Nil
  then show ?case by simp
next
  case (Cons a as)
  let ?h1 = "h @ [\<lparr>Specification = Specification (h ! a), Tool = Tool (h ! a),
              Component = Component (h ! a), Valid = Valid (h ! a)\<rparr>]"
  from Cons.prems have "clone_augments as ?h1 (cloned @ [length h]) = (cloned', h')" by simp
  from Cons.IH[OF this] have ih: "cloned' = (cloned @ [length h]) @ [Suc (length h) ..< Suc (length h) + length as]"
    "length h' = Suc (length h) + length as" "take (Suc (length h)) h' = ?h1" by simp_all
  have "take (length h) h' = take (length h) (take (Suc (length h)) h')" by simp
  also have "\<dots> = h" unfolding ih(3) by simp
  finally have "take (length h) h' = h" .
  moreover have "[length h ..< length h + length (a # as)]
       = length h # [Suc (length h) ..< Suc (length h) + length as]"
    by (simp add: upt_rec)
  ultimately show ?case using ih by simp
qed

lemma AddAugment_loop_frame_aux:
  assumes "AddAugment_loop P s augs change changes do_loop = Some y"
  shows "(\<lambda>(((((P, s), augs), change), changes), do_loop) y.
      set change \<subseteq> set augs \<longrightarrow> (\<forall>ch \<in> set changes. set ch \<subseteq> set augs) \<longrightarrow>
      (\<forall>s'. y = Inr (False, s') \<longrightarrow>
         augments s' = augments s \<and> length (heap s') = length (heap s) \<and>
         (\<forall>x. x \<notin> set augs \<longrightarrow> heap s' ! x = heap s ! x)))
     (((((P, s), augs), change), changes), do_loop) y"
proof (rule AddAugment_loop.raw_induct[OF _ assms], goal_cases)
  case (1 f P s augs change changes do_loop y)
  note IH = 1(1)[simplified]
  show ?case unfolding prod.case
  proof (intro impI allI)
    fix s'
    assume B: "set change \<subseteq> set augs" "\<forall>ch \<in> set changes. set ch \<subseteq> set augs"
      and y: "y = Inr (False, s')"
    note body = 1(2)[unfolded y]
    show "augments s' = augments s \<and> length (heap s') = length (heap s) \<and>
       (\<forall>x. x \<notin> set augs \<longrightarrow> heap s' ! x = heap s ! x)"
    proof (cases "changes = [] \<and> \<not> do_loop")
      case True
      with body show ?thesis by simp
    next
      case False
      with body obtain proceed change' changes' s1 where
        rc: "reconfigure P s change changes do_loop = Some (Inr (proceed, change', changes', s1))"
        by (auto split: option.splits sum.splits)
      note rf = reconfigure_frame[OF rc B]
      show ?thesis
      proof (cases proceed)
        case np: False
        with body False rc have "f P s1 augs change' changes' False = Some (Inr (False, s'))"
          by simp
        from IH[OF this] rf show ?thesis by simp
      next
        case True
        with body False rc obtain conflicting augs' s2 where
          ov: "order_and_validate P s1 augs = Inr (conflicting, augs', s2)"
          by (auto split: sum.splits)
        note ovf = order_and_validate_frame[OF ov]
        from body False rc True ov have ne: "conflicting \<noteq> []"
          and rec: "f P s2 augs' change'
                      (changes' @ map (\<lambda>augment. change' @ [augment]) conflicting) False
                    = Some (Inr (False, s'))"
          by (auto split: if_splits)
        have "\<forall>ch \<in> set (changes' @ map (\<lambda>augment. change' @ [augment]) conflicting).
                set ch \<subseteq> set augs'"
          using rf ovf by auto
        with IH[OF rec] rf ovf show ?thesis by simp
      qed
    qed
  qed
qed

lemma AddAugment_loop_frame:
  assumes "AddAugment_loop P s augs change changes do_loop = Some (Inr (False, s'))"
    and "set change \<subseteq> set augs" and "\<forall>ch \<in> set changes. set ch \<subseteq> set augs"
  shows "augments s' = augments s \<and> length (heap s') = length (heap s) \<and>
         (\<forall>x. x \<notin> set augs \<longrightarrow> heap s' ! x = heap s ! x)"
  using AddAugment_loop_frame_aux[OF assms(1)] assms(2,3) by simp


text \<open>
  Claim C9. Whenever \<^verbatim>\<open>AddAugment\<close> returns \<^verbatim>\<open>False\<close>, the committed list
  \<^verbatim>\<open>self._augments\<close> is the list it was before the call, and every augment object that
  existed before the call is unchanged: the search has only written to the clones and to
  the new augment.
\<close>

theorem AddAugment_failure_keeps_committed:
  assumes "AddAugment P s sp = Some (Inr (False, s'))"
  shows "augments s' = augments s \<and> take (length (heap s)) (heap s') = heap s"
proof -
  let ?n0 = "length (heap s)"
  obtain cloned h where cl: "clone_augments (augments s) (heap s) [] = (cloned, h)"
    by (cases "clone_augments (augments s) (heap s) []") auto
  from clone_augments_shape[OF cl] have sh:
    "cloned = [?n0 ..< ?n0 + length (augments s)]" "length h = ?n0 + length (augments s)"
    "take ?n0 h = heap s" by simp_all
  define s1 where "s1 = s\<lparr>heap := h @ [new_augment sp]\<rparr>"
  define s2 where "s2 = (if \<not> pre_applied s1 \<and> ENVPre P \<noteq> None
                     then s1\<lparr>current := set_vars_opt (ENVPre P) (current s1), pre_applied := True\<rparr>
                     else s1)"
  define augs where "augs = cloned @ [length h]"
  have s2: "heap s2 = h @ [new_augment sp]" "augments s2 = augments s"
    by (simp_all add: s2_def s1_def)
  have fresh: "\<forall>x \<in> set augs. ?n0 \<le> x" using sh by (auto simp: augs_def)
  have old: "x < ?n0 \<Longrightarrow> heap s2 ! x = heap s ! x" for x
  proof -
    assume x: "x < ?n0"
    then have "heap s2 ! x = h ! x" using sh(2) by (simp add: s2 nth_append)
    also have "\<dots> = take ?n0 h ! x" using x by simp
    finally show ?thesis by (simp add: sh(3))
  qed
  have fin: "augments s' = augments s \<and> take ?n0 (heap s') = heap s"
    if a: "augments s' = augments s2" and l: "length (heap s') = length (heap s2)"
      and f: "\<forall>x. x \<notin> set augs \<longrightarrow> heap s' ! x = heap s2 ! x"
  proof -
    have "take ?n0 (heap s') = heap s"
    proof (rule nth_equalityI)
      show "length (take ?n0 (heap s')) = length (heap s)" using l sh(2) by (simp add: s2)
    next
      fix i assume "i < length (take ?n0 (heap s'))"
      then have i: "i < ?n0" by simp
      with fresh have "i \<notin> set augs" by auto
      with f old[OF i] i show "take ?n0 (heap s') ! i = heap s ! i" by simp
    qed
    with a s2(2) show ?thesis by simp
  qed
  show ?thesis
  proof (cases "Components sp = None")
    case True
    with assms cl obtain invalid where
      "validate_augments P s2 augs = Inr (invalid, s')"
      unfolding AddAugment_def s2_def s1_def augs_def Let_def
      by (auto split: sum.splits if_splits)
    from validate_augments_frame[OF this] show ?thesis by (intro fin) simp_all
  next
    case False
    with assms cl obtain do_loop s3 where
      sc: "set_component P s2 (length h) 0 = Some (Inr (do_loop, s3))" and
      lp: "AddAugment_loop P s3 augs [] [] do_loop = Some (Inr (False, s'))"
      unfolding AddAugment_def s2_def s1_def augs_def Let_def
      by (auto split: option.splits sum.splits)
    note f1 = set_component_frame[OF sc]
    from AddAugment_loop_frame[OF lp] have f2:
      "augments s' = augments s3" "length (heap s') = length (heap s3)"
      "\<forall>x. x \<notin> set augs \<longrightarrow> heap s' ! x = heap s3 ! x" by simp_all
    have "length h \<in> set augs" by (simp add: augs_def)
    then have "\<forall>x. x \<notin> set augs \<longrightarrow> heap s' ! x = heap s2 ! x"
      using f1 f2(3) by metis
    with f1 f2 show ?thesis by (intro fin) simp_all
  qed
qed

theorem AddAugment_failure_keeps_committed_witness:
  "\<exists>s'. AddAugment demo_prims
           (demo_session\<lparr>augments := [0],
              heap := [\<lparr>Specification = demo_spec 0 None (Some [1]) None, Tool = None,
                        Component = None, Valid = True\<rparr>]\<rparr>)
           (demo_spec 1 (Some [''AR'']) None None) = Some (Inr (False, s')) \<and>
     augments s' = [0] \<and>
     take 1 (heap s') = [\<lparr>Specification = demo_spec 0 None (Some [1]) None, Tool = None,
                        Component = None, Valid = True\<rparr>]"
proof -
  let ?s = "demo_session\<lparr>augments := [0],
              heap := [\<lparr>Specification = demo_spec 0 None (Some [1]) None, Tool = None,
                        Component = None, Valid = True\<rparr>]\<rparr>"
  let ?sp = "demo_spec 1 (Some [''AR'']) None None"
  have h1: "Components ?sp = Some [''AR'']" by (simp add: demo_spec_def)
  have h2: "\<forall>c \<in> set [''AR'']. \<not> has_key (base ?s) c"
    by (simp add: has_key_def demo_session_def demo_base_def)
  have h3: "\<forall>t \<in> set (Tools (cache ?s)).
       \<exists>m. ToolComponents (cache ?s) t = Some m \<and> (\<forall>c \<in> set [''AR'']. m c = None)"
    by (simp add: demo_session_def demo_cache_def)
  from AddAugment_unsatisfiable[OF h1 _ h2 h3, of demo_prims] obtain s' where
    r: "AddAugment demo_prims ?s ?sp = Some (Inr (False, s'))" by auto
  from AddAugment_failure_keeps_committed[OF r] have
    "augments s' = [0] \<and>
     take 1 (heap s') = [\<lparr>Specification = demo_spec 0 None (Some [1]) None, Tool = None,
                        Component = None, Valid = True\<rparr>]" by simp
  with r show ?thesis by blast
qed

subsection \<open>Ordering keeps the augments of a tool together\<close>



lemma length_insert_at [simp]: "length (insert_at p x xs) = Suc (length xs)"
  by (simp add: insert_at_def)








lemma contiguous_Nil [simp]: "contiguous []"
  by (simp add: contiguous_def)





lemma augment_copy [simp]:
  "\<lparr>Specification = Specification x, Tool = Tool x, Component = Component x, Valid = Valid x\<rparr>
     = (x::augment)"
  by (cases x) simp





end
